theory Spec2Isabelle
  imports Main "HOL-Library.Word" "HOL-Library.Signed_Division" "HOL-Library.Monad_Syntax"
begin

unbundle bit_operations_syntax

section \<open>The Nokia 5110 LCD driver of \<open>lcd.c\<close>\<close>

text \<open>
  The embedding follows \<open>src/CollisionSensor/Src/lcd.c\<close> (the first revision in the
  file, lines 1 to 380). Machine integers are words: \<open>uint8_t\<close> is \<open>8 word\<close>,
  \<open>uint16_t\<close> is \<open>16 word\<close>; a C \<open>int\<close> that only counts a loop or holds a promoted
  operand is an \<open>int\<close> (no computation of the driver leaves the 32-bit range). Text is
  \<open>string\<close>: a C \<open>char\<close> is a HOL \<open>char\<close>, read as an unsigned byte by \<open>of_char\<close>, as
  the ARM ABI of the target does.

  A C array is a list whose length is the array's capacity. An access outside it is
  undefined behaviour in C; every function that indexes an array returns an \<open>option\<close>
  and \<open>None\<close> stands for such an access.
\<close>

type_synonym u8 = "8 word"
type_synonym u16 = "16 word"

subsection \<open>\<open>uintToStr\<close>: unsigned integer to decimal text\<close>

text \<open>
  The \<open>do \<dots> while (dist > 0)\<close> loop: the body runs, then the test. One call of
  \<open>digit_loop\<close> is one pass through the body; it returns the buffer and
  \<open>charsWritten\<close> when the test fails.
\<close>

function digit_loop :: "string \<Rightarrow> u8 \<Rightarrow> u16 \<Rightarrow> (string \<times> u8) option" where
  "digit_loop buf charsWritten dist =
     (if unat charsWritten < length buf then
        let buf' = buf[unat charsWritten := char_of (48 + uint dist mod 10)];
            charsWritten' = charsWritten + 1;
            dist' = dist div 10
        in if dist' > 0 then digit_loop buf' charsWritten' dist'
           else Some (buf', charsWritten')
      else None)"
  by pat_completeness auto
termination
proof (relation "measure (\<lambda>(buf, charsWritten, dist). unat dist)")
  show "wf (measure (\<lambda>(buf, charsWritten, dist). unat dist))"
    by simp
next
  fix buf :: string and charsWritten :: u8 and dist :: u16
  fix b :: string and c :: u8 and d :: u16
  assume d: "d = dist div 10" and pos: "0 < d"
  have "unat (dist div 10) = unat dist div 10"
    by (simp add: unat_div)
  moreover have "0 < unat (dist div 10)"
    using d pos by (simp add: word_less_nat_alt)
  ultimately have "unat (dist div 10) < unat dist"
    by linarith
  then show "((b, c, d), (buf, charsWritten, dist))
               \<in> measure (\<lambda>(buf, charsWritten, dist). unat dist)"
    using d by simp
qed

text \<open>
  The reversal loop \<open>for (int i = 0, j = charsWritten-1; i < j; i++, j--)\<close>, entered
  with the current \<open>i\<close> and \<open>j\<close>.
\<close>

function swap_loop :: "string \<Rightarrow> int \<Rightarrow> int \<Rightarrow> string option" where
  "swap_loop buf i j =
     (if i < j then
        (if 0 \<le> i \<and> nat j < length buf then
           let temp = buf ! nat i;
               buf1 = buf[nat i := buf ! nat j];
               buf2 = buf1[nat j := temp]
           in swap_loop buf2 (i + 1) (j - 1)
         else None)
      else Some buf)"
  by pat_completeness auto
termination
  by (relation "measure (\<lambda>(buf, i, j). nat (j - i))") auto

definition uintToStr :: "string \<Rightarrow> u16 \<Rightarrow> (string \<times> u8) option" where
  "uintToStr buf dist =
     do {
       (buf', charsWritten) \<leftarrow> digit_loop buf 0 dist;
       buf'' \<leftarrow> swap_loop buf' 0 (uint charsWritten - 1);
       Some (buf'', charsWritten)
     }"

subsection \<open>Transport and command/data framing\<close>

text \<open>
  What the display sees is the sequence of bytes clocked out over SPI2, each latched
  with the level of the D/C line at that moment. The bus state is that line and the
  bytes sent so far. \<open>LCD_SendByte\<close> also polls the SPI status flags and frames the
  byte with chip select; neither changes which bytes are sent, and they are left out.
\<close>

datatype mode = CommandMode | DataMode

record lcd_bus =
  mode_select :: mode
  sent :: "(mode \<times> u8) list"

definition LCD_SendByte :: "u8 \<Rightarrow> lcd_bus \<Rightarrow> lcd_bus" where
  "LCD_SendByte c s = s\<lparr>sent := sent s @ [(mode_select s, c)]\<rparr>"

definition LCD_SendCommand :: "u8 \<Rightarrow> lcd_bus \<Rightarrow> lcd_bus" where
  "LCD_SendCommand c s = LCD_SendByte c (s\<lparr>mode_select := CommandMode\<rparr>)"

definition LCD_SendData :: "u8 \<Rightarrow> lcd_bus \<Rightarrow> lcd_bus" where
  "LCD_SendData c s = LCD_SendByte c (s\<lparr>mode_select := DataMode\<rparr>)"

subsection \<open>Cursor addressing\<close>

definition LCD_SetX :: "u8 \<Rightarrow> lcd_bus \<Rightarrow> lcd_bus" where
  "LCD_SetX x s = (if x > 83 then s else LCD_SendCommand (0x80 OR x) s)"

definition LCD_SetY :: "u8 \<Rightarrow> lcd_bus \<Rightarrow> lcd_bus" where
  "LCD_SetY y s = (if y > 5 then s else LCD_SendCommand (0x40 OR y) s)"

definition LCD_ResetX :: "lcd_bus \<Rightarrow> lcd_bus" where
  "LCD_ResetX s = LCD_SetX 0x0 s"

definition LCD_ResetY :: "lcd_bus \<Rightarrow> lcd_bus" where
  "LCD_ResetY s = LCD_SetY 0x0 s"

definition LCD_Reset :: "lcd_bus \<Rightarrow> lcd_bus" where
  "LCD_Reset s = LCD_ResetY (LCD_ResetX s)"

subsection \<open>Clearing\<close>

text \<open>
  \<open>for (int i = 0; i < bound; i++) LCD_SendData(0x00);\<close> is the loop of both
  \<open>LCD_ClearDisplay\<close> (bound \<open>84*48/8\<close>) and \<open>LCD_ClearRow\<close> (bound \<open>84-x\<close>, an
  \<open>int\<close> since \<open>x\<close> is promoted).
\<close>

function zero_loop :: "int \<Rightarrow> int \<Rightarrow> lcd_bus \<Rightarrow> lcd_bus" where
  "zero_loop i bound s =
     (if i < bound then zero_loop (i + 1) bound (LCD_SendData 0x00 s) else s)"
  by pat_completeness auto
termination
  by (relation "measure (\<lambda>(i, bound, s). nat (bound - i))") auto

definition LCD_ClearDisplay :: "lcd_bus \<Rightarrow> lcd_bus" where
  "LCD_ClearDisplay s = zero_loop 0 (84 * 48 div 8) (LCD_Reset s)"

definition LCD_ClearRow :: "u8 \<Rightarrow> u8 \<Rightarrow> lcd_bus \<Rightarrow> lcd_bus" where
  "LCD_ClearRow y x s = zero_loop 0 (84 - uint x) (LCD_SetX x (LCD_SetY y s))"

subsection \<open>Glyph rendering\<close>

text \<open>
  The glyph table \<open>ascii_to_lcd\<close> is declared in \<open>lcd.h\<close>, which is not part of the
  sources at hand; it is a parameter \<open>tbl\<close> of every function that reads it. Each row
  has five column bytes (\<open>ascii_to_lcd[k][0]\<close> to \<open>ascii_to_lcd[k][4]\<close>). Reading row
  \<open>k\<close> outside the table is \<open>None\<close>.
\<close>

datatype glyph = Glyph u8 u8 u8 u8 u8

fun cols :: "glyph \<Rightarrow> u8 list" where
  "cols (Glyph a b c d e) = [a, b, c, d, e]"

definition column :: "glyph \<Rightarrow> nat \<Rightarrow> u8" where
  "column g i = cols g ! i"

definition glyph_at :: "glyph list \<Rightarrow> int \<Rightarrow> glyph option" where
  "glyph_at tbl k = (if 0 \<le> k \<and> k < int (length tbl) then Some (tbl ! nat k) else None)"

text \<open>\<open>for (int i = 0; i < 5; i++) LCD_SendData(ascii_to_lcd[c-' '][i]);\<close>\<close>

function glyph_loop :: "glyph list \<Rightarrow> char \<Rightarrow> int \<Rightarrow> lcd_bus \<Rightarrow> lcd_bus option" where
  "glyph_loop tbl c i s =
     (if i < 5 then
        (if 0 \<le> i then
           (case glyph_at tbl (of_char c - 32) of
              None \<Rightarrow> None
            | Some g \<Rightarrow> glyph_loop tbl c (i + 1) (LCD_SendData (column g (nat i)) s))
         else None)
      else Some s)"
  by pat_completeness auto
termination
  by (relation "measure (\<lambda>(tbl, c, i, s). nat (5 - i))") auto

text \<open>
  \<open>char index = c - ' '\<close> converts the \<open>int\<close> difference back to a \<open>char\<close>, that is
  modulo 256; the loop indexes with the \<open>int\<close> difference itself.
\<close>

definition LCD_PrintCharacter :: "glyph list \<Rightarrow> char \<Rightarrow> lcd_bus \<Rightarrow> lcd_bus option" where
  "LCD_PrintCharacter tbl c s =
     do {
       let index = (of_char c - 32) mod 256;
       g \<leftarrow> glyph_at tbl index;
       let s1 = (if column g 0 \<noteq> 0x00 then LCD_SendData 0x00 s else s);
       s2 \<leftarrow> glyph_loop tbl c 0 s1;
       g' \<leftarrow> glyph_at tbl index;
       Some (if column g' 4 \<noteq> 0x00 then LCD_SendData 0x00 s2 else s2)
     }"

function print_loop :: "glyph list \<Rightarrow> string \<Rightarrow> int \<Rightarrow> int \<Rightarrow> lcd_bus \<Rightarrow> lcd_bus option" where
  "print_loop tbl str sz i s =
     (if i < sz then
        (if 0 \<le> i \<and> nat i < length str then
           (case LCD_PrintCharacter tbl (str ! nat i) s of
              None \<Rightarrow> None
            | Some s' \<Rightarrow> print_loop tbl str sz (i + 1) s')
         else None)
      else Some s)"
  by pat_completeness auto
termination
  by (relation "measure (\<lambda>(tbl, str, sz, i, s). nat (sz - i))") auto

definition LCD_PrintString :: "glyph list \<Rightarrow> string \<Rightarrow> int \<Rightarrow> lcd_bus \<Rightarrow> lcd_bus option" where
  "LCD_PrintString tbl str sz s = print_loop tbl str sz 0 s"

text \<open>
  The width loop of \<open>LCD_PrintStringCentered\<close>; \<open>numCol\<close> is a \<open>uint8_t\<close> and
  \<open>numCol++\<close> wraps.
\<close>

function width_loop :: "glyph list \<Rightarrow> string \<Rightarrow> u8 \<Rightarrow> int \<Rightarrow> u8 \<Rightarrow> u8 option" where
  "width_loop tbl str sz i numCol =
     (if i < uint sz then
        (if 0 \<le> i \<and> nat i < length str then
           (case glyph_at tbl (of_char (str ! nat i) - 32) of
              None \<Rightarrow> None
            | Some c \<Rightarrow>
                let numCol1 = (if column c 0 \<noteq> 0x00 then numCol + 1 else numCol);
                    numCol2 = (if column c 4 \<noteq> 0x00 then numCol1 + 1 else numCol1)
                in width_loop tbl str sz (i + 1) numCol2)
         else None)
      else Some numCol)"
  by pat_completeness auto
termination
  by (relation "measure (\<lambda>(tbl, str, sz, i, numCol). nat (uint sz - i))") auto

text \<open>
  \<open>(84-numCol)/2\<close> is \<open>int\<close> arithmetic with C's truncating division (\<open>sdiv\<close>); the
  argument of \<open>LCD_SetX\<close> is its conversion to \<open>uint8_t\<close>.
\<close>

definition LCD_PrintStringCentered :: "glyph list \<Rightarrow> string \<Rightarrow> u8 \<Rightarrow> lcd_bus \<Rightarrow> lcd_bus option" where
  "LCD_PrintStringCentered tbl str sz s =
     do {
       numCol \<leftarrow> width_loop tbl str sz 0 (sz * 5);
       LCD_PrintString tbl str (uint sz) (LCD_SetX (word_of_int ((84 - uint numCol) sdiv 2)) s)
     }"

subsection \<open>Readout formatting\<close>

text \<open>
  The copy loops of the two measurement printers all have the shape
  \<open>for (\<dots>; i < bound; i++, j++) dst[j] = src[i];\<close>: the unit suffix is appended with
  \<open>i = 0, j = sz\<close>, and the composite line is filled with source and destination index
  running together. \<open>copy_loop\<close> returns the destination and the final destination
  index.
\<close>

function copy_loop :: "string \<Rightarrow> string \<Rightarrow> int \<Rightarrow> int \<Rightarrow> int \<Rightarrow> (string \<times> int) option" where
  "copy_loop dst src bound i j =
     (if i < bound then
        (if 0 \<le> i \<and> nat i < length src \<and> 0 \<le> j \<and> nat j < length dst then
           copy_loop (dst[nat j := src ! nat i]) src bound (i + 1) (j + 1)
         else None)
      else Some (dst, j))"
  by pat_completeness auto
termination
  by (relation "measure (\<lambda>(dst, src, bound, i, j). nat (bound - i))") auto

text \<open>
  A string literal of the source is its characters followed by the terminating NUL.
\<close>

definition literal :: "string \<Rightarrow> string" where
  "literal cs = cs @ [CHR 0x00]"

text \<open>
  A local array declared without initialiser (\<open>char distStr[32]\<close>) holds indeterminate
  bytes. They are a parameter of the model: \<open>junk k\<close> is whatever cell \<open>k\<close> holds on
  entry.
\<close>

definition local_array :: "(nat \<Rightarrow> char) \<Rightarrow> nat \<Rightarrow> string" where
  "local_array junk n = map junk [0..<n]"

definition LCD_PrintMeasurement ::
    "glyph list \<Rightarrow> (nat \<Rightarrow> char) \<Rightarrow> u16 \<Rightarrow> string \<Rightarrow> u8 \<Rightarrow> lcd_bus \<Rightarrow> lcd_bus option" where
  "LCD_PrintMeasurement tbl junk dist units units_sz s =
     (let distStr = local_array junk 32;
          s1 = LCD_ClearRow 2 0 s;
          s2 = LCD_SetY 2 s1
      in if dist > 4500 then LCD_PrintStringCentered tbl (literal ''OUT OF RANGE'') 12 s2
         else do {
           (distStr1, sz) \<leftarrow> uintToStr distStr dist;
           (distStr2, j) \<leftarrow> copy_loop distStr1 units (uint units_sz) 0 (uint sz);
           LCD_PrintStringCentered tbl distStr2 (word_of_int (uint sz + uint units_sz)) s2
         })"

text \<open>
  In \<open>LCD_PrintTempMeasurement\<close> the lengths are \<open>uint16_t\<close>; \<open>fullTempStr[64] = ""\<close>
  is zero-filled; the last argument \<open>i\<close> is converted to \<open>uint8_t\<close>. The test is
  transcribed disjunct by disjunct: a \<open>uint16_t\<close> is promoted to \<open>int\<close> before it is
  compared.
\<close>

definition LCD_PrintTempMeasurement ::
    "glyph list \<Rightarrow> (nat \<Rightarrow> char) \<Rightarrow> (nat \<Rightarrow> char) \<Rightarrow>
     u16 \<Rightarrow> string \<Rightarrow> u8 \<Rightarrow> u16 \<Rightarrow> string \<Rightarrow> u8 \<Rightarrow> lcd_bus \<Rightarrow> lcd_bus option" where
  "LCD_PrintTempMeasurement tbl junk junk2 temp units units_sz temp2 units2 units_sz2 s =
     (let tempStr = local_array junk 32;
          tempStr2 = local_array junk2 32;
          s1 = LCD_ClearRow 4 0 s;
          s2 = LCD_SetY 4 s1
      in if uint temp > 158 \<or> uint temp < 0 \<or> uint temp > 158 \<or> uint temp < 0
         then LCD_PrintStringCentered tbl (literal ''OUT OF RANGE'') 12 s2
         else do {
           (tempStr', sz8) \<leftarrow> uintToStr tempStr temp;
           (tempStr2', sz28) \<leftarrow> uintToStr tempStr2 temp2;
           let sz = (ucast sz8 :: u16);
           let sz2 = (ucast sz28 :: u16);
           (tempStr'', j) \<leftarrow> copy_loop tempStr' units (uint units_sz) 0 (uint sz);
           (tempStr2'', j2) \<leftarrow> copy_loop tempStr2' units2 (uint units_sz2) 0 (uint sz2);
           let fullTempStr = replicate 64 (CHR 0x00);
           (fullTempStr1, i1) \<leftarrow> copy_loop fullTempStr tempStr'' (uint sz + uint units_sz) 0 0;
           fullTempStr2 \<leftarrow> (if 0 \<le> i1 \<and> nat i1 < length fullTempStr1
                             then Some (fullTempStr1[nat i1 := CHR '' ''])
                             else None);
           let i2 = i1 + 1;
           (fullTempStr3, i3) \<leftarrow> copy_loop fullTempStr2 tempStr2'' (uint sz2 + uint units_sz2) 0 i2;
           LCD_PrintStringCentered tbl fullTempStr3 (word_of_int i3) s2
         })"

section \<open>Specification vocabulary\<close>

text \<open>
  The notions the properties below are stated with. \<open>emit bs\<close> sends the tagged bytes
  \<open>bs\<close> one after the other. A character is tabulated when its row \<open>c - ' '\<close> lies in
  the glyph table. \<open>char_bytes\<close> is the spacer rule: a blank column before the five
  glyph columns when the first is non-zero, one after them when the last is non-zero.
  \<open>rendered_width\<close> counts five columns per character and one more for each such
  spacer.
\<close>

definition emit :: "(mode \<times> u8) list \<Rightarrow> lcd_bus \<Rightarrow> lcd_bus" where
  "emit bs s = fold (\<lambda>(m, c) t. LCD_SendByte c (t\<lparr>mode_select := m\<rparr>)) bs s"

definition tabulated :: "glyph list \<Rightarrow> char \<Rightarrow> bool" where
  "tabulated tbl c \<longleftrightarrow> 32 \<le> (of_char c :: nat) \<and> of_char c - 32 < length tbl"

definition glyph_of :: "glyph list \<Rightarrow> char \<Rightarrow> glyph" where
  "glyph_of tbl c = tbl ! (of_char c - 32)"

definition leading_spacer :: "glyph \<Rightarrow> (mode \<times> u8) list" where
  "leading_spacer g = (if column g 0 \<noteq> 0 then [(DataMode, 0)] else [])"

definition trailing_spacer :: "glyph \<Rightarrow> (mode \<times> u8) list" where
  "trailing_spacer g = (if column g 4 \<noteq> 0 then [(DataMode, 0)] else [])"

definition char_bytes :: "glyph \<Rightarrow> (mode \<times> u8) list" where
  "char_bytes g = leading_spacer g @ map (Pair DataMode) (cols g) @ trailing_spacer g"

definition char_width :: "glyph \<Rightarrow> nat" where
  "char_width g = 5 + (if column g 0 \<noteq> 0 then 1 else 0) + (if column g 4 \<noteq> 0 then 1 else 0)"

definition rendered_width :: "glyph list \<Rightarrow> string \<Rightarrow> nat" where
  "rendered_width tbl str = sum_list (map (\<lambda>c. char_width (glyph_of tbl c)) str)"

definition text_bytes :: "glyph list \<Rightarrow> string \<Rightarrow> (mode \<times> u8) list" where
  "text_bytes tbl str = concat (map (\<lambda>c. char_bytes (glyph_of tbl c)) str)"

definition spacers :: "glyph \<Rightarrow> nat" where
  "spacers g = (if column g 0 \<noteq> 0 then 1 else 0) + (if column g 4 \<noteq> 0 then 1 else 0)"

text \<open>
  Decimal numerals. \<open>digits_lsd n\<close> are the decimal digits of \<open>n\<close>, least significant
  first; \<open>decimal n\<close> is the numeral of \<open>n\<close> as text. \<open>parse_decimal\<close> reads a text
  as a decimal numeral, most significant digit first: it fails on the empty text and on
  any character that is not one of \<open>0\<close> to \<open>9\<close>.
\<close>

fun digits_lsd :: "nat \<Rightarrow> nat list" where
  "digits_lsd n = (if n < 10 then [n] else n mod 10 # digits_lsd (n div 10))"

definition digit_char :: "nat \<Rightarrow> char" where
  "digit_char d = char_of (48 + d)"

definition decimal :: "nat \<Rightarrow> string" where
  "decimal n = rev (map digit_char (digits_lsd n))"

definition digit_value :: "char \<Rightarrow> nat option" where
  "digit_value c =
     (if 48 \<le> (of_char c :: nat) \<and> (of_char c :: nat) \<le> 57 then Some (of_char c - 48) else None)"

definition parse_step :: "nat option \<Rightarrow> char \<Rightarrow> nat option" where
  "parse_step acc c =
     (case acc of
        None \<Rightarrow> None
      | Some a \<Rightarrow> (case digit_value c of None \<Rightarrow> None | Some d \<Rightarrow> Some (10 * a + d)))"

definition parse_decimal :: "string \<Rightarrow> nat option" where
  "parse_decimal cs = (if cs = [] then None else foldl parse_step (Some 0) cs)"

text \<open>
  The two loops of \<open>uintToStr\<close> under an iteration budget: the same bodies and tests,
  and \<open>OutOfFuel\<close> when the body would have to run once more than \<open>fuel\<close> allows.
\<close>

datatype 'a bounded = OutOfFuel | Returned 'a

fun digit_loop_fuel :: "nat \<Rightarrow> string \<Rightarrow> u8 \<Rightarrow> u16 \<Rightarrow> (string \<times> u8) option bounded" where
  "digit_loop_fuel 0 buf charsWritten dist = OutOfFuel"
| "digit_loop_fuel (Suc fuel) buf charsWritten dist =
     (if unat charsWritten < length buf then
        let buf' = buf[unat charsWritten := char_of (48 + uint dist mod 10)];
            charsWritten' = charsWritten + 1;
            dist' = dist div 10
        in if dist' > 0 then digit_loop_fuel fuel buf' charsWritten' dist'
           else Returned (Some (buf', charsWritten'))
      else Returned None)"

fun swap_loop_fuel :: "nat \<Rightarrow> string \<Rightarrow> int \<Rightarrow> int \<Rightarrow> string option bounded" where
  "swap_loop_fuel 0 buf i j = (if i < j then OutOfFuel else Returned (Some buf))"
| "swap_loop_fuel (Suc fuel) buf i j =
     (if i < j then
        (if 0 \<le> i \<and> nat j < length buf then
           let temp = buf ! nat i;
               buf1 = buf[nat i := buf ! nat j];
               buf2 = buf1[nat j := temp]
           in swap_loop_fuel fuel buf2 (i + 1) (j - 1)
         else Returned None)
      else Returned (Some buf))"

text \<open>A small table for the concrete instances below; its glyphs are not the font's.\<close>

definition sample_table :: "glyph list" where
  "sample_table =
     [Glyph 0x00 0x00 0x00 0x00 0x00,
      Glyph 0x7F 0x01 0x01 0x01 0x00,
      Glyph 0x00 0x01 0x01 0x01 0x7F,
      Glyph 0x7F 0x08 0x08 0x08 0x7F]"

definition wide_table :: "glyph list" where
  "wide_table = replicate 96 (Glyph 0x7F 0x08 0x08 0x08 0x7F)"

definition idle_bus :: lcd_bus where
  "idle_bus = \<lparr>mode_select = DataMode, sent = []\<rparr>"

section \<open>Properties\<close>

subsection \<open>Bytes on the bus\<close>

declare zero_loop.simps [simp del] glyph_loop.simps [simp del] print_loop.simps [simp del]
  width_loop.simps [simp del]

lemma emit_Nil: "emit [] s = s"
  by (simp add: emit_def)

lemma emit_emit: "emit ys (emit xs s) = emit (xs @ ys) s"
  by (simp add: emit_def)

lemma sent_emit: "sent (emit bs s) = sent s @ bs"
  by (induction bs arbitrary: s) (auto simp: emit_def LCD_SendByte_def)

lemma SendData_emit: "LCD_SendData c s = emit [(DataMode, c)] s"
  by (simp add: emit_def LCD_SendData_def)

lemma SendCommand_emit: "LCD_SendCommand c s = emit [(CommandMode, c)] s"
  by (simp add: emit_def LCD_SendCommand_def)

lemma glyph_at_tabulated:
  assumes "tabulated tbl c"
  shows "glyph_at tbl (of_char c - 32) = Some (glyph_of tbl c)"
    and "glyph_at tbl ((of_char c - 32) mod 256) = Some (glyph_of tbl c)"
proof -
  let ?n = "of_char c :: nat"
  have i: "(of_char c :: int) = int ?n"
    by (simp add: of_nat_of_char)
  have lt: "?n < 256" by simp
  from assms have ge: "32 \<le> ?n" and len: "?n - 32 < length tbl"
    by (simp_all add: tabulated_def)
  from ge have d: "(of_char c :: int) - 32 = int (?n - 32)"
    unfolding i by simp
  from lt have "?n - 32 < 256"
    by arith
  then have m: "int (?n - 32) mod 256 = int (?n - 32)"
    by (intro mod_pos_pos_trivial) simp_all
  show "glyph_at tbl (of_char c - 32) = Some (glyph_of tbl c)"
    unfolding d using len by (simp add: glyph_at_def glyph_of_def)
  show "glyph_at tbl ((of_char c - 32) mod 256) = Some (glyph_of tbl c)"
    unfolding d m using len by (simp add: glyph_at_def glyph_of_def)
qed

lemma glyph_loop_emit:
  "glyph_at tbl (of_char c - 32) = Some g \<Longrightarrow> 0 \<le> i \<Longrightarrow> i \<le> 5 \<Longrightarrow>
   glyph_loop tbl c i s = Some (emit (map (Pair DataMode) (drop (nat i) (cols g))) s)"
proof (induction tbl c i s rule: glyph_loop.induct)
  case (1 tbl c i s)
  note assms = 1(2)
  note 1 = 1(1) 1(3) 1(4)
  show ?case
  proof (cases "i < 5")
    case True
    have len: "length (cols g) = 5" by (cases g) simp
    with True 1(2) have dr: "drop (nat i) (cols g) = column g (nat i) # drop (nat (i + 1)) (cols g)"
      by (simp add: column_def Cons_nth_drop_Suc nat_add_distrib)
    have "glyph_loop tbl c i s = glyph_loop tbl c (i + 1) (LCD_SendData (column g (nat i)) s)"
      using True 1(2) assms by (simp add: glyph_loop.simps [of tbl c i])
    also have "\<dots> = Some (emit (map (Pair DataMode) (drop (nat (i + 1)) (cols g)))
                          (LCD_SendData (column g (nat i)) s))"
      using 1(1) [OF True 1(2) assms assms] True 1(2) by simp
    finally show ?thesis
      by (simp add: dr SendData_emit emit_emit)
  next
    case False
    with 1(3) have "i = 5" by simp
    moreover have "length (cols g) = 5" by (cases g) simp
    ultimately show ?thesis
      by (simp add: glyph_loop.simps [of tbl c 5] emit_Nil)
  qed
qed

lemma PrintCharacter_emit:
  assumes "tabulated tbl c"
  shows "LCD_PrintCharacter tbl c s = Some (emit (char_bytes (glyph_of tbl c)) s)"
proof -
  note g = glyph_at_tabulated [OF assms]
  show ?thesis
    by (simp add: LCD_PrintCharacter_def g glyph_loop_emit [OF g(1)] char_bytes_def
        leading_spacer_def trailing_spacer_def SendData_emit emit_emit emit_Nil)
qed

lemma drop_take_step:
  "0 \<le> i \<Longrightarrow> i < sz \<Longrightarrow> nat sz \<le> length str \<Longrightarrow>
   drop (nat i) (take (nat sz) str) = str ! nat i # drop (nat (i + 1)) (take (nat sz) str)"
proof -
  assume a: "0 \<le> i" "i < sz" "nat sz \<le> length str"
  then have "nat i < length (take (nat sz) str)"
    by simp
  then have "drop (nat i) (take (nat sz) str) =
             take (nat sz) str ! nat i # drop (Suc (nat i)) (take (nat sz) str)"
    by (rule Cons_nth_drop_Suc [symmetric])
  moreover have "take (nat sz) str ! nat i = str ! nat i"
    using a by simp
  moreover have "Suc (nat i) = nat (i + 1)"
    using a by simp
  ultimately show ?thesis by simp
qed

lemma print_loop_emit:
  "0 \<le> i \<Longrightarrow> i \<le> sz \<Longrightarrow> nat sz \<le> length str \<Longrightarrow>
   \<forall>c \<in> set (take (nat sz) str). tabulated tbl c \<Longrightarrow>
   print_loop tbl str sz i s = Some (emit (text_bytes tbl (drop (nat i) (take (nat sz) str))) s)"
proof (induction tbl str sz i s rule: print_loop.induct)
  case (1 tbl str sz i s)
  show ?case
  proof (cases "i < sz")
    case True
    with 1(2,4) have inb: "nat i < length str"
      by simp
    note dr = drop_take_step [OF 1(2) True 1(4)]
    have "str ! nat i \<in> set (take (nat sz) str)"
      using True 1(2,4) by (metis dr in_set_dropD list.set_intros(1))
    with 1(5) have tab: "tabulated tbl (str ! nat i)"
      by blast
    let ?s' = "emit (char_bytes (glyph_of tbl (str ! nat i))) s"
    have pc: "LCD_PrintCharacter tbl (str ! nat i) s = Some ?s'"
      by (rule PrintCharacter_emit [OF tab])
    have "print_loop tbl str sz i s = print_loop tbl str sz (i + 1) ?s'"
      using True 1(2) inb pc by (simp add: print_loop.simps [of tbl str sz i])
    also have "\<dots> = Some (emit (text_bytes tbl (drop (nat (i + 1)) (take (nat sz) str))) ?s')"
      using 1(1) [OF True _ pc] True 1(2,4,5) inb by simp
    finally show ?thesis
      by (simp add: dr text_bytes_def emit_emit)
  next
    case False
    with 1(3) have "i = sz" by simp
    then show ?thesis
      by (simp add: print_loop.simps [of tbl str sz sz] text_bytes_def emit_Nil)
  qed
qed

lemma width_loop_sum:
  "0 \<le> i \<Longrightarrow> i \<le> uint sz \<Longrightarrow> unat sz \<le> length str \<Longrightarrow>
   \<forall>c \<in> set (take (unat sz) str). tabulated tbl c \<Longrightarrow>
   width_loop tbl str sz i numCol =
     Some (numCol + of_nat (sum_list (map (\<lambda>c. spacers (glyph_of tbl c))
                                          (drop (nat i) (take (unat sz) str)))))"
proof (induction tbl str sz i numCol rule: width_loop.induct)
  case (1 tbl str sz i numCol)
  have u: "unat sz = nat (uint sz)" by simp
  show ?case
  proof (cases "i < uint sz")
    case True
    with 1(2,4) have inb: "nat i < length str"
      by (simp add: u del: nat_uint_eq)
    have dr: "drop (nat i) (take (unat sz) str) =
              str ! nat i # drop (nat (i + 1)) (take (unat sz) str)"
      unfolding u using drop_take_step [OF 1(2) True] 1(4) by (simp add: u del: nat_uint_eq)
    have "str ! nat i \<in> set (take (unat sz) str)"
      by (metis dr in_set_dropD list.set_intros(1))
    with 1(5) have tab: "tabulated tbl (str ! nat i)"
      by blast
    note g = glyph_at_tabulated(1) [OF tab]
    let ?g = "glyph_of tbl (str ! nat i)"
    let ?n1 = "if column ?g 0 \<noteq> 0 then numCol + 1 else numCol"
    let ?n2 = "if column ?g 4 \<noteq> 0 then ?n1 + 1 else ?n1"
    have n2: "?n2 = numCol + of_nat (spacers ?g)"
      by (simp add: spacers_def)
    have "width_loop tbl str sz i numCol = width_loop tbl str sz (i + 1) ?n2"
      using True 1(2) inb g by (simp add: width_loop.simps [of tbl str sz i] Let_def)
    also have "\<dots> = Some (?n2 + of_nat (sum_list (map (\<lambda>c. spacers (glyph_of tbl c))
                                          (drop (nat (i + 1)) (take (unat sz) str)))))"
      using 1(1) [OF True _ g refl refl] True 1(2,4,5) inb by simp
    finally show ?thesis
      unfolding n2 by (simp add: dr)
  next
    case False
    with 1(3) have "i = uint sz" by simp
    then show ?thesis
      by (simp add: width_loop.simps [of tbl str sz "uint sz"])
  qed
qed

lemma length_char_bytes: "length (char_bytes g) = char_width g"
  by (cases g) (simp add: char_bytes_def char_width_def leading_spacer_def trailing_spacer_def)

lemma length_text_bytes: "length (text_bytes tbl str) = rendered_width tbl str"
  by (induction str) (simp_all add: text_bytes_def rendered_width_def length_char_bytes)

lemma rendered_width_spacers:
  "rendered_width tbl str =
     5 * length str + sum_list (map (\<lambda>c. spacers (glyph_of tbl c)) str)"
  by (induction str) (simp_all add: rendered_width_def char_width_def spacers_def)

lemma PrintStringCentered_emit:
  assumes len: "unat sz \<le> length str"
    and tab: "\<forall>c \<in> set (take (unat sz) str). tabulated tbl c"
    and w: "rendered_width tbl (take (unat sz) str) \<le> 84"
  shows "LCD_PrintStringCentered tbl str sz s =
           Some (emit ((CommandMode, 0x80 OR of_nat ((84 - rendered_width tbl (take (unat sz) str)) div 2))
                        # text_bytes tbl (take (unat sz) str)) s)"
proof -
  let ?txt = "take (unat sz) str"
  let ?w = "rendered_width tbl ?txt"
  let ?sp = "sum_list (map (\<lambda>c. spacers (glyph_of tbl c)) ?txt)"
  have lt: "length ?txt = unat sz"
    using len by (simp add: min_def)
  have weq: "?w = 5 * unat sz + ?sp"
    unfolding rendered_width_spacers lt ..
  have "width_loop tbl str sz 0 (sz * 5) = Some (sz * 5 + of_nat ?sp)"
    using width_loop_sum [of 0 sz str tbl "sz * 5"] len tab by simp
  moreover have "sz * 5 + of_nat ?sp = (of_nat ?w :: u8)"
    by (simp add: weq)
  ultimately have wl: "width_loop tbl str sz 0 (sz * 5) = Some (of_nat ?w)"
    by simp
  have uw: "uint (of_nat ?w :: u8) = int ?w"
    using w by (simp add: uint_nat unat_of_nat)
  have sd: "(84 - int ?w) sdiv 2 = int ((84 - ?w) div 2)"
    using w by (simp add: signed_divide_int_def sgn_if zdiv_int of_nat_diff)
  let ?x = "of_nat ((84 - ?w) div 2) :: u8"
  have x: "\<not> ?x > 83"
  proof -
    have "unat ?x = (84 - ?w) div 2"
      by (simp add: unat_of_nat)
    then have "unat ?x \<le> 83" by simp
    then show ?thesis by (simp add: word_less_nat_alt)
  qed
  have pl: "print_loop tbl str (uint sz) 0 t = Some (emit (text_bytes tbl ?txt) t)" for t
    using print_loop_emit [of 0 "uint sz" str tbl t] len tab by simp
  show ?thesis
    by (simp add: LCD_PrintStringCentered_def wl uw sd LCD_PrintString_def pl LCD_SetX_def x
        SendCommand_emit emit_emit)
qed

subsection \<open>Cursor addressing and clearing\<close>

lemma sent_SendCommand: "sent (LCD_SendCommand c s) = sent s @ [(CommandMode, c)]"
  by (simp add: SendCommand_emit sent_emit)

lemma sent_zero_loop:
  "sent (zero_loop i bound s) = sent s @ replicate (nat (bound - i)) (DataMode, 0)"
proof (induction i bound s rule: zero_loop.induct)
  case (1 i bound s)
  show ?case
  proof (cases "i < bound")
    case True
    then have n: "nat (bound - i) = Suc (nat (bound - (i + 1)))"
      by simp
    from True have "zero_loop i bound s = zero_loop (i + 1) bound (LCD_SendData 0 s)"
      by (simp add: zero_loop.simps [of i])
    with 1 [OF True] n show ?thesis
      by (simp add: SendData_emit sent_emit replicate_append_same)
  next
    case False
    then show ?thesis
      by (simp add: zero_loop.simps [of i])
  qed
qed

text \<open>
  C3. \<open>LCD_SetX x\<close> sends exactly the command byte \<open>0x80 | x\<close> when \<open>x \<le> 83\<close> and
  leaves the bus untouched when \<open>x > 83\<close>; \<open>LCD_SetY y\<close> sends exactly the command
  byte \<open>0x40 | y\<close> when \<open>y \<le> 5\<close> and leaves the bus untouched when \<open>y > 5\<close>.
\<close>

theorem set_column_row_command:
  "(x \<le> 83 \<longrightarrow> sent (LCD_SetX x s) = sent s @ [(CommandMode, 0x80 OR x)]) \<and>
   (x > 83 \<longrightarrow> LCD_SetX x s = s) \<and>
   (y \<le> 5 \<longrightarrow> sent (LCD_SetY y s) = sent s @ [(CommandMode, 0x40 OR y)]) \<and>
   (y > 5 \<longrightarrow> LCD_SetY y s = s)"
  by (auto simp: LCD_SetX_def LCD_SetY_def sent_SendCommand)

theorem set_column_row_command_witness:
  "sent (LCD_SetX 10 idle_bus) = [(CommandMode, 0x8A)] \<and>
   LCD_SetX 84 idle_bus = idle_bus \<and>
   sent (LCD_SetY 3 idle_bus) = [(CommandMode, 0x43)] \<and>
   LCD_SetY 6 idle_bus = idle_bus"
  using set_column_row_command [of 10 idle_bus 3] set_column_row_command [of 84 idle_bus 6]
  by (simp add: idle_bus_def)

lemma sent_Reset: "sent (LCD_Reset s) = sent s @ [(CommandMode, 0x80), (CommandMode, 0x40)]"
  by (simp add: LCD_Reset_def LCD_ResetX_def LCD_ResetY_def LCD_SetX_def LCD_SetY_def
      sent_SendCommand)

lemma display_bound: "nat (84 * 48 div 8 - 0) = 504"
  by simp

text \<open>
  C6. \<open>LCD_ClearDisplay\<close> sends the column command for column 0 and the row command
  for row-group 0, then 504 data bytes \<open>0x00\<close>, and nothing else.
\<close>

theorem clear_display_bytes:
  "sent (LCD_ClearDisplay s) =
     sent s @ [(CommandMode, 0x80), (CommandMode, 0x40)] @ replicate 504 (DataMode, 0x00)"
  unfolding LCD_ClearDisplay_def sent_zero_loop display_bound sent_Reset by simp

lemma row_bound: "nat (84 - uint x) = 84 - unat x" for x :: u8
proof -
  have "nat (84 - uint x) = nat 84 - nat (uint x)"
    by (rule nat_diff_distrib') simp_all
  then show ?thesis by simp
qed

lemma row_bound_0: "84 \<le> x \<Longrightarrow> 84 - unat x = 0" for x :: u8
  by unat_arith

lemma u8_ge_84: "84 \<le> x \<longleftrightarrow> x > 83" for x :: u8
  by unat_arith

text \<open>
  C8. \<open>LCD_ClearRow y x\<close> sends the row command and the column command (each only
  when its argument is in range, as \<open>LCD_SetY\<close> and \<open>LCD_SetX\<close> do), then \<open>84 - x\<close>
  data bytes \<open>0x00\<close> when \<open>x \<le> 83\<close>; when \<open>x \<ge> 84\<close> it sends no data byte: the
  bound \<open>84 - x\<close> of the loop is negative or zero, it does not wrap.
\<close>

theorem clear_row_bytes:
  "(y \<le> 5 \<and> x \<le> 83 \<longrightarrow>
      sent (LCD_ClearRow y x s) =
        sent s @ [(CommandMode, 0x40 OR y), (CommandMode, 0x80 OR x)]
               @ replicate (84 - unat x) (DataMode, 0x00)) \<and>
   (y > 5 \<and> x \<le> 83 \<longrightarrow>
      sent (LCD_ClearRow y x s) =
        sent s @ [(CommandMode, 0x80 OR x)] @ replicate (84 - unat x) (DataMode, 0x00)) \<and>
   (y \<le> 5 \<and> x \<ge> 84 \<longrightarrow>
      sent (LCD_ClearRow y x s) = sent s @ [(CommandMode, 0x40 OR y)]) \<and>
   (y > 5 \<and> x \<ge> 84 \<longrightarrow> sent (LCD_ClearRow y x s) = sent s)"
proof -
  have a: "sent (LCD_ClearRow y x s) =
             sent (LCD_SetX x (LCD_SetY y s)) @ replicate (84 - unat x) (DataMode, 0x00)"
    unfolding LCD_ClearRow_def sent_zero_loop by (simp only: diff_zero row_bound)
  have x1: "x \<le> 83 \<Longrightarrow> sent (LCD_SetX x t) = sent t @ [(CommandMode, 0x80 OR x)]" for t
    by (simp add: LCD_SetX_def sent_SendCommand)
  have x2: "x \<ge> 84 \<Longrightarrow> LCD_SetX x t = t" for t
    using u8_ge_84 [of x] by (simp add: LCD_SetX_def)
  have y1: "y \<le> 5 \<Longrightarrow> sent (LCD_SetY y s) = sent s @ [(CommandMode, 0x40 OR y)]"
    by (simp add: LCD_SetY_def sent_SendCommand)
  have y2: "y > 5 \<Longrightarrow> LCD_SetY y s = s"
    by (simp add: LCD_SetY_def)
  show ?thesis
    by (simp add: a x1 x2 y1 y2 row_bound_0)
qed
theorem clear_row_bytes_witness:
  "sent (LCD_ClearRow 2 80 idle_bus) =
     [(CommandMode, 0x42), (CommandMode, 0xD0)] @ replicate 4 (DataMode, 0) \<and>
   sent (LCD_ClearRow 7 82 idle_bus) = [(CommandMode, 0xD2)] @ replicate 2 (DataMode, 0) \<and>
   sent (LCD_ClearRow 2 200 idle_bus) = [(CommandMode, 0x42)] \<and>
   sent (LCD_ClearRow 7 84 idle_bus) = []"
proof -
  have "sent (LCD_ClearRow 2 80 idle_bus) =
     [(CommandMode, 0x42), (CommandMode, 0xD0)] @ replicate 4 (DataMode, 0)"
   using clear_row_bytes [of 2 80 idle_bus] by (simp add: idle_bus_def)
  moreover have "sent (LCD_ClearRow 7 82 idle_bus) = [(CommandMode, 0xD2)] @ replicate 2 (DataMode, 0)"
    using clear_row_bytes [of 7 82 idle_bus] by (simp add: idle_bus_def)
  moreover have "sent (LCD_ClearRow 2 200 idle_bus) = [(CommandMode, 0x42)]"
    using clear_row_bytes [of 2 200 idle_bus] by (simp add: idle_bus_def)
  moreover have "sent (LCD_ClearRow 7 84 idle_bus) = []"
    using clear_row_bytes [of 7 84 idle_bus] by (simp add: idle_bus_def)
  ultimately show ?thesis by blast
qed

subsection \<open>Glyph rendering\<close>

text \<open>
  C7. For a tabulated character, \<open>LCD_PrintCharacter\<close> sends one data byte \<open>0x00\<close>
  exactly when the glyph's first column is non-zero, then the five glyph columns in
  order, then one data byte \<open>0x00\<close> exactly when the glyph's fifth column is non-zero.
  The two tests do not depend on each other.
\<close>

theorem print_character_spacers:
  assumes "tabulated tbl c"
  shows "map_option sent (LCD_PrintCharacter tbl c s) =
           Some (sent s
                 @ (if column (glyph_of tbl c) 0 \<noteq> 0x00 then [(DataMode, 0x00)] else [])
                 @ map (Pair DataMode) (cols (glyph_of tbl c))
                 @ (if column (glyph_of tbl c) 4 \<noteq> 0x00 then [(DataMode, 0x00)] else []))"
  by (simp add: PrintCharacter_emit [OF assms] sent_emit char_bytes_def
      leading_spacer_def trailing_spacer_def)

theorem print_character_spacers_witness:
  "tabulated sample_table CHR ''!'' \<and>
   map_option sent (LCD_PrintCharacter sample_table CHR ''!'' idle_bus) =
     Some [(DataMode, 0x00), (DataMode, 0x7F), (DataMode, 0x01), (DataMode, 0x01),
           (DataMode, 0x01), (DataMode, 0x00)]"
proof -
  have t: "tabulated sample_table CHR ''!''"
    by (simp add: tabulated_def sample_table_def)
  show ?thesis
    using t print_character_spacers [OF t, of idle_bus]
    by (simp add: glyph_of_def column_def sample_table_def idle_bus_def)
qed

text \<open>
  C4. For a string of \<open>sz\<close> tabulated characters whose rendered width \<open>w\<close> is at most
  84, \<open>LCD_PrintStringCentered\<close> sets the column to \<open>(84 - w) div 2\<close> and then prints
  the string: the bus receives that column command followed by the \<open>w\<close> data bytes of
  the text, and \<open>start + w \<le> 84\<close>.
\<close>

theorem centered_start_column:
  assumes "unat sz \<le> length str"
    and "\<forall>c \<in> set (take (unat sz) str). tabulated tbl c"
    and "w = rendered_width tbl (take (unat sz) str)"
    and "w \<le> 84"
    and "start = (84 - w) div 2"
  shows "LCD_PrintStringCentered tbl str sz s =
           LCD_PrintString tbl str (uint sz) (LCD_SetX (of_nat start) s) \<and>
         map_option sent (LCD_PrintStringCentered tbl str sz s) =
           Some (sent s @ [(CommandMode, 0x80 OR of_nat start)]
                        @ text_bytes tbl (take (unat sz) str)) \<and>
         length (text_bytes tbl (take (unat sz) str)) = w \<and>
         start + w \<le> 84"
proof -
  let ?txt = "take (unat sz) str"
  have w84: "rendered_width tbl ?txt \<le> 84"
    using assms(3,4) by simp
  note c = PrintStringCentered_emit [OF assms(1,2) w84, folded assms(3), folded assms(5)]
  have x: "\<not> (of_nat start :: u8) > 83"
  proof -
    have "unat (of_nat start :: u8) = start"
      using assms(5) by (simp add: unat_of_nat)
    moreover have "start \<le> 83"
      using assms(5) by simp
    ultimately show ?thesis
      by (simp add: word_less_nat_alt)
  qed
  have "LCD_PrintString tbl str (uint sz) (LCD_SetX (of_nat start) s) =
          Some (emit (text_bytes tbl ?txt) (emit [(CommandMode, 0x80 OR of_nat start)] s))"
    using print_loop_emit [of 0 "uint sz" str tbl] assms(1,2)
    by (simp add: LCD_PrintString_def LCD_SetX_def x SendCommand_emit)
  then have "LCD_PrintStringCentered tbl str sz s =
          LCD_PrintString tbl str (uint sz) (LCD_SetX (of_nat start) s)"
    by (simp add: c emit_emit)
  moreover have "map_option sent (LCD_PrintStringCentered tbl str sz s) =
           Some (sent s @ [(CommandMode, 0x80 OR of_nat start)] @ text_bytes tbl ?txt)"
    by (simp add: c sent_emit)
  moreover have "length (text_bytes tbl ?txt) = w"
    by (simp add: length_text_bytes assms(3))
  moreover have "start + w \<le> 84"
    using assms(4,5) by simp
  ultimately show ?thesis
    by blast
qed

theorem centered_start_column_witness:
  "unat (3 :: u8) \<le> length ''# !'' \<and>
   list_all (tabulated sample_table) (take (unat (3 :: u8)) ''# !'') \<and>
   (18 :: nat) = rendered_width sample_table (take (unat (3 :: u8)) ''# !'') \<and>
   (18 :: nat) \<le> 84 \<and> (33 :: nat) = (84 - 18) div 2 \<and>
   map_option sent (LCD_PrintStringCentered sample_table ''# !'' 3 idle_bus) =
     Some (sent idle_bus @ [(CommandMode, 0x80 OR of_nat 33)]
             @ text_bytes sample_table (take (unat (3 :: u8)) ''# !'')) \<and>
   length (text_bytes sample_table (take (unat (3 :: u8)) ''# !'')) = 18 \<and>
   (33 :: nat) + 18 \<le> 84"
proof -
  have 1: "unat (3 :: u8) \<le> length ''# !''"
    by simp
  have t: "list_all (tabulated sample_table) (take (unat (3 :: u8)) ''# !'')"
    by (simp add: tabulated_def sample_table_def)
  then have 2: "\<forall>c \<in> set (take (unat (3 :: u8)) ''# !''). tabulated sample_table c"
    by (simp only: list_all_iff)
  have 3: "(18 :: nat) = rendered_width sample_table (take (unat (3 :: u8)) ''# !'')"
    by (simp add: rendered_width_def char_width_def glyph_of_def column_def sample_table_def)
  have 4: "(18 :: nat) \<le> 84"
    by simp
  have 5: "(33 :: nat) = (84 - 18) div 2"
    by simp
  from centered_start_column [OF 1 2 3 4 5, of idle_bus] 1 t 3 4 5 show ?thesis
    by blast
qed

subsection \<open>Decimal conversion\<close>

declare digits_lsd.simps [simp del] digit_loop.simps [simp del] swap_loop.simps [simp del]

lemma digits_lsd_length_pos: "0 < length (digits_lsd n)"
  by (subst digits_lsd.simps) simp

lemma digits_lsd_small: "n < 10 \<Longrightarrow> digits_lsd n = [n]"
  by (subst digits_lsd.simps) simp

lemma digits_lsd_large: "10 \<le> n \<Longrightarrow> digits_lsd n = n mod 10 # digits_lsd (n div 10)"
  by (subst digits_lsd.simps) simp

lemma digit_of_word: "char_of (48 + uint dist mod 10) = digit_char (unat dist mod 10)"
proof -
  have "48 + uint dist mod 10 = int (48 + unat dist mod 10)"
    by (simp add: zmod_int)
  then show ?thesis
    by (simp only: digit_char_def char_of_nat)
qed

lemma digit_loop_last:
  assumes "unat dist < 10" and "unat charsWritten < length buf"
  shows "digit_loop buf charsWritten dist =
           Some (buf[unat charsWritten := digit_char (unat dist)], charsWritten + 1)"
proof -
  have "unat (dist div 10) = 0"
    using assms(1) by (simp add: unat_div)
  then have z: "dist div 10 = 0"
    by (simp add: unat_eq_0)
  have m: "unat dist mod 10 = unat dist"
    using assms(1) by simp
  show ?thesis
    using assms(2)
    by (simp add: digit_loop.simps [of buf charsWritten dist] Let_def z digit_of_word m)
qed

lemma digit_loop_more:
  assumes "10 \<le> unat dist" and "unat charsWritten < length buf"
  shows "digit_loop buf charsWritten dist =
           digit_loop (buf[unat charsWritten := digit_char (unat dist mod 10)])
             (charsWritten + 1) (dist div 10)"
proof -
  have "unat (dist div 10) = unat dist div 10"
    by (simp add: unat_div)
  with assms(1) have "0 < unat (dist div 10)"
    by simp
  then have z: "0 < dist div 10"
    by (simp add: word_less_nat_alt)
  show ?thesis
    using assms(2)
    by (simp add: digit_loop.simps [of buf charsWritten dist] Let_def z digit_of_word)
qed

lemma digit_loop_digits:
  "unat cw + length (digits_lsd n) \<le> length buf \<Longrightarrow> unat cw + length (digits_lsd n) < 256 \<Longrightarrow>
   unat dist = n \<Longrightarrow>
   digit_loop buf cw dist =
     Some (take (unat cw) buf @ map digit_char (digits_lsd n)
             @ drop (unat cw + length (digits_lsd n)) buf,
           cw + of_nat (length (digits_lsd n)))"
proof (induction n arbitrary: buf cw dist rule: digits_lsd.induct)
  case (1 n)
  show ?case
  proof (cases "n < 10")
    case True
    then have d: "digits_lsd n = [n]"
      by (rule digits_lsd_small)
    from 1(2) have inb: "unat cw < length buf"
      by (simp add: d)
    have "digit_loop buf cw dist = Some (buf[unat cw := digit_char n], cw + 1)"
      using digit_loop_last [of dist cw buf] True inb 1(4) by simp
    then show ?thesis
      using inb by (simp add: d upd_conv_take_nth_drop)
  next
    case False
    then have d: "digits_lsd n = n mod 10 # digits_lsd (n div 10)"
      by (simp add: digits_lsd_large)
    let ?k = "length (digits_lsd (n div 10))"
    from 1(2) have inb: "unat cw < length buf"
      by (simp add: d)
    from 1(3) have "unat cw + 1 < 256"
      by (simp add: d)
    then have u: "unat (cw + 1) = Suc (unat cw)"
      by (simp add: unat_word_ariths)
    let ?buf = "buf[unat cw := digit_char (n mod 10)]"
    have step: "digit_loop buf cw dist = digit_loop ?buf (cw + 1) (dist div 10)"
      using digit_loop_more [of dist cw buf] False inb 1(4) by simp
    have ih: "digit_loop ?buf (cw + 1) (dist div 10) =
                Some (take (unat (cw + 1)) ?buf @ map digit_char (digits_lsd (n div 10))
                        @ drop (unat (cw + 1) + ?k) ?buf,
                      cw + 1 + of_nat ?k)"
    proof (rule 1(1) [OF False])
      show "unat (cw + 1) + ?k \<le> length ?buf"
        using 1(2) by (simp add: d u)
      show "unat (cw + 1) + ?k < 256"
        using 1(3) by (simp add: d u)
      show "unat (dist div 10) = n div 10"
        using 1(4) by (simp add: unat_div)
    qed
    have t: "take (Suc (unat cw)) ?buf = take (unat cw) buf @ [digit_char (n mod 10)]"
      using inb by (simp add: take_Suc_conv_app_nth)
    have dr: "drop (Suc (unat cw) + ?k) ?buf = drop (Suc (unat cw) + ?k) buf"
      by simp
    show ?thesis
      unfolding step ih u t dr by (simp add: d)
  qed
qed
lemma swap_loop_nth:
  "0 \<le> i \<Longrightarrow> nat j < length buf \<Longrightarrow>
   \<exists>r. swap_loop buf i j = Some r \<and> length r = length buf \<and>
       (\<forall>k < length buf.
          r ! k = (if i \<le> int k \<and> int k \<le> j then buf ! nat (i + j - int k) else buf ! k))"
proof (induction buf i j rule: swap_loop.induct)
  case (1 buf i j)
  note IH = 1(1) and i0 = 1(2) and jlen = 1(3)
  show ?case
  proof (cases "i < j")
    case False
    have "buf ! nat (i + j - int k) = buf ! k" if "i \<le> int k" "int k \<le> j" for k
    proof -
      from that False have "i + j - int k = int k" by simp
      then show ?thesis by simp
    qed
    then show ?thesis
      using False by (simp add: swap_loop.simps [of buf i j])
  next
    case True
    let ?buf2 = "buf[nat i := buf ! nat j, nat j := buf ! nat i]"
    have inb: "0 \<le> i \<and> nat j < length buf"
      using i0 jlen by simp
    have "\<exists>r. swap_loop ?buf2 (i + 1) (j - 1) = Some r \<and> length r = length ?buf2 \<and>
       (\<forall>k < length ?buf2.
          r ! k = (if i + 1 \<le> int k \<and> int k \<le> j - 1
                   then ?buf2 ! nat (i + 1 + (j - 1) - int k) else ?buf2 ! k))"
      using IH [OF True inb refl refl refl] i0 jlen True by simp
    then obtain r where r: "swap_loop ?buf2 (i + 1) (j - 1) = Some r"
      and lr: "length r = length buf"
      and nr: "\<And>k. k < length buf \<Longrightarrow>
          r ! k = (if i + 1 \<le> int k \<and> int k \<le> j - 1
                   then ?buf2 ! nat (i + j - int k) else ?buf2 ! k)"
      by auto
    have sw: "swap_loop buf i j = Some r"
      using True inb r by (simp add: swap_loop.simps [of buf i j] Let_def)
    have "r ! k = (if i \<le> int k \<and> int k \<le> j then buf ! nat (i + j - int k) else buf ! k)"
      if k: "k < length buf" for k
    proof -
      consider "int k < i" | "int k = i" | "i < int k" "int k < j" | "int k = j" | "j < int k"
        by linarith
      then show ?thesis
      proof cases
        case 1
        with True i0 have "k \<noteq> nat i" "k \<noteq> nat j" by auto
        with 1 k nr [OF k] show ?thesis by simp
      next
        case 2
        with True i0 have ki: "k = nat i" and "k \<noteq> nat j" by auto
        with 2 k True nr [OF k] show ?thesis by simp
      next
        case 3
        with True i0 have "k \<noteq> nat i" "k \<noteq> nat j"
          and "nat (i + j - int k) \<noteq> nat i" "nat (i + j - int k) \<noteq> nat j" by auto
        with 3 k nr [OF k] show ?thesis by simp
      next
        case 4
        with True i0 have kj: "k = nat j" and "k \<noteq> nat i" by auto
        with 4 k True i0 nr [OF k] show ?thesis by simp
      next
        case 5
        with True i0 have "k \<noteq> nat i" "k \<noteq> nat j" by auto
        with 5 k nr [OF k] show ?thesis by simp
      qed
    qed
    with sw lr show ?thesis
      by simp
  qed
qed
lemma digits_lsd_length_le: "0 < k \<Longrightarrow> n < 10 ^ k \<Longrightarrow> length (digits_lsd n) \<le> k"
proof (induction k arbitrary: n)
  case 0
  then show ?case by simp
next
  case (Suc k)
  show ?case
  proof (cases "n < 10")
    case True
    then show ?thesis by (simp add: digits_lsd_small)
  next
    case False
    with Suc(3) have k: "0 < k"
      by (cases k) simp_all
    from Suc(3) have "n div 10 < 10 ^ k"
      by (simp add: less_mult_imp_div_less mult.commute)
    from Suc(1) [OF k this] False show ?thesis
      by (simp add: digits_lsd_large)
  qed
qed

lemma digits_lsd_u16: "length (digits_lsd (unat (v :: u16))) \<le> 5"
proof -
  have "unat v < 2 ^ 16"
    using unsigned_less [of v] by simp
  then have "unat v < 10 ^ 5"
    by simp
  then show ?thesis
    by (intro digits_lsd_length_le) simp_all
qed

lemma length_decimal: "length (decimal n) = length (digits_lsd n)"
  by (simp add: decimal_def)

lemma uintToStr_decimal:
  assumes fit: "length (decimal (unat v)) \<le> length buf"
  shows "uintToStr buf v =
           Some (decimal (unat v) @ drop (length (decimal (unat v))) buf,
                 of_nat (length (decimal (unat v))))"
proof -
  let ?ds = "map digit_char (digits_lsd (unat v))"
  let ?n = "length (digits_lsd (unat v))"
  let ?B = "?ds @ drop ?n buf"
  have n5: "?n \<le> 5" by (rule digits_lsd_u16)
  have n1: "0 < ?n" by (rule digits_lsd_length_pos)
  have nb: "?n \<le> length buf"
    using fit by (simp add: length_decimal)
  have dl: "digit_loop buf 0 v = Some (?B, of_nat ?n)"
    using digit_loop_digits [of 0 "unat v" buf v] nb n5 by simp
  have un: "uint (of_nat ?n :: u8) - 1 = int ?n - 1"
  proof -
    have "unat (of_nat ?n :: u8) = ?n"
      using n5 by (simp add: unat_of_nat)
    then show ?thesis
      by (simp only: uint_nat)
  qed
  have lB: "length ?B = length buf"
    using nb by simp
  have "nat (int ?n - 1) < length ?B"
    unfolding lB using n1 nb by arith
  from swap_loop_nth [of 0 "int ?n - 1" ?B, OF _ this]
  obtain r where r: "swap_loop ?B 0 (int ?n - 1) = Some r"
    and lr: "length r = length buf"
    and nr: "\<And>k. k < length buf \<Longrightarrow>
              r ! k = (if int k \<le> int ?n - 1 then ?B ! nat (int ?n - 1 - int k) else ?B ! k)"
    unfolding lB by auto
  have "r = rev ?ds @ drop ?n buf"
  proof (rule nth_equalityI)
    show "length r = length (rev ?ds @ drop ?n buf)"
      using nb by (simp add: lr)
  next
    fix k
    assume "k < length r"
    then have k: "k < length buf"
      by (simp add: lr)
    show "r ! k = (rev ?ds @ drop ?n buf) ! k"
    proof (cases "k < ?n")
      case True
      then have "nat (int ?n - 1 - int k) = ?n - 1 - k"
        by simp
      moreover from True have "?n - 1 - k < ?n"
        by simp
      ultimately have "r ! k = ?ds ! (?n - 1 - k)"
        using nr [OF k] True by (simp add: nth_append)
      moreover have "(rev ?ds @ drop ?n buf) ! k = ?ds ! (?n - Suc k)"
        using True by (simp add: nth_append rev_nth)
      ultimately show ?thesis
        by simp
    next
      case False
      then have "r ! k = ?B ! k"
        using nr [OF k] by simp
      then show ?thesis
        using False by (simp add: nth_append)
    qed
  qed
  then show ?thesis
    by (simp add: uintToStr_def dl un r decimal_def)
qed

lemma digit_char_value: "d < 10 \<Longrightarrow> digit_value (digit_char d) = Some d"
  by (simp add: digit_value_def digit_char_def)

lemma digits_lsd_value:
  "foldr (\<lambda>c acc. parse_step acc c) (map digit_char (digits_lsd n)) (Some 0) = Some n"
proof (induction n rule: digits_lsd.induct)
  case (1 n)
  show ?case
  proof (cases "n < 10")
    case True
    then show ?thesis
      by (simp add: digits_lsd_small digit_char_value parse_step_def)
  next
    case False
    have "digit_value (digit_char (n mod 10)) = Some (n mod 10)"
      by (rule digit_char_value) simp
    with 1 [OF False] False show ?thesis
      by (simp add: digits_lsd_large parse_step_def)
  qed
qed

lemma decimal_not_empty: "decimal n \<noteq> []"
  using digits_lsd_length_pos [of n] by (simp add: decimal_def)

lemma parse_decimal_decimal: "parse_decimal (decimal n) = Some n"
proof -
  have "foldl parse_step (Some 0) (decimal n) = Some n"
    using digits_lsd_value [of n] by (simp add: decimal_def foldr_conv_foldl)
  then show ?thesis
    by (simp add: parse_decimal_def decimal_not_empty)
qed

lemma parse_decimal_non_digit: "parse_decimal ''1:'' = None"
  by (simp add: parse_decimal_def parse_step_def digit_value_def)

lemma digit_chars: "map digit_char [0, 1, 2, 3, 4, 5, 6, 7, 8, 9] = ''0123456789''"
  by (simp add: digit_char_def char_of_def bit_Suc_0_iff)

lemma decimal_0: "decimal 0 = ''0''"
  using digit_chars by (simp add: decimal_def digits_lsd.simps)

lemma decimal_4500: "decimal 4500 = ''4500''"
  using digit_chars by (simp add: decimal_def digits_lsd.simps)

lemma decimal_fits: "5 \<le> length buf \<Longrightarrow> length (decimal (unat (v :: u16))) \<le> length buf"
  using digits_lsd_u16 [of v] by (simp add: length_decimal)

lemma unat_length_decimal:
  "unat (of_nat (length (decimal (unat (v :: u16)))) :: u8) = length (decimal (unat v))"
  using digits_lsd_u16 [of v] by (simp add: length_decimal unat_of_nat)

lemma digits_lsd_last: "0 < n \<Longrightarrow> 1 \<le> last (digits_lsd n) \<and> last (digits_lsd n) \<le> 9"
proof (induction n rule: digits_lsd.induct)
  case (1 n)
  show ?case
  proof (cases "n < 10")
    case True
    with 1(2) show ?thesis
      by (simp add: digits_lsd_small)
  next
    case False
    then have "0 < n div 10"
      by simp
    from 1(1) [OF False this] digits_lsd_length_pos [of "n div 10"] False show ?thesis
      by (simp add: digits_lsd_large)
  qed
qed

lemma digit_char_nonzero:
  assumes "1 \<le> d" and "d \<le> 9"
  shows "digit_char d \<in> set ''123456789''"
proof -
  from assms have "d = 1 \<or> d = 2 \<or> d = 3 \<or> d = 4 \<or> d = 5 \<or> d = 6 \<or> d = 7 \<or> d = 8 \<or> d = 9"
    by arith
  then show ?thesis
    using digit_chars by auto
qed

lemma decimal_first: "0 < n \<Longrightarrow> decimal n ! 0 \<in> set ''123456789''"
proof -
  assume n: "0 < n"
  have ne: "digits_lsd n \<noteq> []"
    using digits_lsd_length_pos [of n] by simp
  then have "decimal n ! 0 = digit_char (last (digits_lsd n))"
    by (simp add: decimal_def rev_nth last_conv_nth)
  with digits_lsd_last [OF n] show ?thesis
    by (simp only: digit_char_nonzero)
qed

lemma digit_loop_fuel_enough:
  "0 < k \<Longrightarrow> unat dist < 10 ^ k \<Longrightarrow>
   digit_loop_fuel k buf charsWritten dist = Returned (digit_loop buf charsWritten dist)"
proof (induction k arbitrary: buf charsWritten dist)
  case 0
  then show ?case by simp
next
  case (Suc k)
  show ?case
  proof (cases "unat charsWritten < length buf")
    case False
    then show ?thesis
      by (simp add: digit_loop.simps [of buf charsWritten dist])
  next
    case inb: True
    show ?thesis
    proof (cases "unat dist < 10")
      case True
      then have "unat (dist div 10) = 0"
        by (simp add: unat_div)
      then have z: "dist div 10 = 0"
        by (simp add: unat_eq_0)
      show ?thesis
        using inb by (simp add: digit_loop.simps [of buf charsWritten dist] Let_def z)
    next
      case False
      have ud: "unat (dist div 10) = unat dist div 10"
        by (simp add: unat_div)
      with False have "0 < unat (dist div 10)"
        by simp
      then have z: "0 < dist div 10"
        by (simp add: word_less_nat_alt)
      from False Suc(3) have k: "0 < k"
        by (cases k) simp_all
      from Suc(3) have "unat (dist div 10) < 10 ^ k"
        unfolding ud by (simp add: less_mult_imp_div_less mult.commute)
      note ih = Suc(1) [OF k this]
      show ?thesis
        using inb by (simp add: digit_loop.simps [of buf charsWritten dist] Let_def z ih)
    qed
  qed
qed

lemma swap_loop_fuel_enough:
  "nat (j - i + 1) div 2 \<le> k \<Longrightarrow> swap_loop_fuel k buf i j = Returned (swap_loop buf i j)"
proof (induction k arbitrary: buf i j)
  case 0
  then have "\<not> i < j"
    by auto
  then show ?case
    by (simp add: swap_loop.simps [of buf i j])
next
  case (Suc k)
  show ?case
  proof (cases "i < j")
    case False
    then show ?thesis
      by (simp add: swap_loop.simps [of buf i j])
  next
    case True
    then have "nat (j - i + 1) = nat (j - 1 - (i + 1) + 1) + 2"
      by simp
    with Suc(2) have "nat (j - 1 - (i + 1) + 1) div 2 \<le> k"
      by simp
    note ih = Suc(1) [OF this]
    show ?thesis
      using True by (simp add: swap_loop.simps [of buf i j] Let_def ih)
  qed
qed

lemma decimal_65535: "decimal 65535 = ''65535''"
  using digit_chars by (simp add: decimal_def digits_lsd.simps)

text \<open>
  C2. With room for five characters, \<open>uintToStr\<close> of 0 writes \<open>0\<close> and returns 1, of
  4500 writes \<open>4500\<close> and returns 4, leaving the rest of the buffer as it was; and for
  every 16-bit value \<open>v\<close> the \<open>charsWritten\<close> characters it wrote are exactly the
  decimal numeral of \<open>v\<close>: they are all digits, and read as a decimal numeral they give
  \<open>v\<close> back.
\<close>

theorem uintToStr_round_trip:
  assumes "5 \<le> length buf"
  shows "uintToStr buf 0 = Some (''0'' @ drop 1 buf, 1) \<and>
         uintToStr buf 4500 = Some (''4500'' @ drop 4 buf, 4) \<and>
         (\<forall>v. \<exists>buf' n. uintToStr buf v = Some (buf', n) \<and>
                 take (unat n) buf' = decimal (unat v) \<and>
                 parse_decimal (take (unat n) buf') = Some (unat v))"
proof (intro conjI allI)
  have l1: "length ''0'' = 1"
    by simp
  have u0: "unat (0 :: u16) = 0"
    by simp
  show "uintToStr buf 0 = Some (''0'' @ drop 1 buf, 1)"
    using uintToStr_decimal [OF decimal_fits [OF assms], of 0, unfolded u0 decimal_0 l1]
    by simp
  have l4: "length ''4500'' = 4"
    by simp
  have u4500: "unat (4500 :: u16) = 4500"
    by simp
  show "uintToStr buf 4500 = Some (''4500'' @ drop 4 buf, 4)"
    using uintToStr_decimal [OF decimal_fits [OF assms], of 4500, unfolded u4500 decimal_4500 l4]
    by simp
  fix v :: u16
  let ?d = "decimal (unat v)"
  have "uintToStr buf v = Some (?d @ drop (length ?d) buf, of_nat (length ?d))"
    by (rule uintToStr_decimal [OF decimal_fits [OF assms]])
  moreover have tk: "take (unat (of_nat (length ?d) :: u8)) (?d @ drop (length ?d) buf) = ?d"
    by (simp add: unat_length_decimal)
  moreover have "parse_decimal (take (unat (of_nat (length ?d) :: u8)) (?d @ drop (length ?d) buf))
                   = Some (unat v)"
    unfolding tk by (rule parse_decimal_decimal)
  ultimately show "\<exists>buf' n. uintToStr buf v = Some (buf', n) \<and>
                     take (unat n) buf' = decimal (unat v) \<and>
                     parse_decimal (take (unat n) buf') = Some (unat v)"
    by blast
qed

theorem uintToStr_round_trip_witness:
  "5 \<le> length ''?????'' \<and>
   uintToStr ''?????'' 0 = Some (''0????'', 1) \<and>
   uintToStr ''?????'' 4500 = Some (''4500?'', 4) \<and>
   (\<exists>buf' n. uintToStr ''?????'' 65535 = Some (buf', n) \<and>
      take (unat n) buf' = ''65535'' \<and>
      parse_decimal (take (unat n) buf') = Some 65535)"
proof -
  have 1: "5 \<le> length ''?????''"
    by simp
  have u: "unat (65535 :: u16) = 65535"
    by simp
  note r = uintToStr_round_trip [OF 1]
  have a: "uintToStr ''?????'' 0 = Some (''0????'', 1)"
    using r [THEN conjunct1] by simp
  have b: "uintToStr ''?????'' 4500 = Some (''4500?'', 4)"
    using r [THEN conjunct2, THEN conjunct1] by simp
  note c = r [THEN conjunct2, THEN conjunct2, THEN spec, of 65535, unfolded u decimal_65535]
  from 1 a b c show ?thesis
    by blast
qed

text \<open>
  C9. With room for five characters, \<open>uintToStr\<close> returns a length between 1 and 5
  for every 16-bit value, and for a value of at least 1 the first character written is
  one of the digits 1 to 9.
\<close>

theorem uintToStr_digits_bounds:
  assumes "5 \<le> length buf"
  shows "\<exists>buf' n. uintToStr buf v = Some (buf', n) \<and> 1 \<le> unat n \<and> unat n \<le> 5 \<and>
           (1 \<le> v \<longrightarrow> buf' ! 0 \<in> set ''123456789'')"
proof -
  let ?d = "decimal (unat v)"
  have u: "uintToStr buf v = Some (?d @ drop (length ?d) buf, of_nat (length ?d))"
    by (rule uintToStr_decimal [OF decimal_fits [OF assms]])
  have l1: "1 \<le> length ?d"
    unfolding length_decimal using digits_lsd_length_pos [of "unat v"] by arith
  have l5: "length ?d \<le> 5"
    using digits_lsd_u16 [of v] by (simp add: length_decimal)
  have "(?d @ drop (length ?d) buf) ! 0 \<in> set ''123456789''" if "1 \<le> v"
  proof -
    from that have "0 < unat v"
      by (simp add: word_le_nat_alt)
    moreover from l1 have "(?d @ drop (length ?d) buf) ! 0 = ?d ! 0"
      by (cases ?d) simp_all
    ultimately show ?thesis
      using decimal_first [of "unat v"] by simp
  qed
  with u l1 l5 show ?thesis
    by (simp add: unat_length_decimal)
qed

theorem uintToStr_digits_bounds_witness:
  "5 \<le> length ''?????'' \<and>
   (\<exists>buf' n. uintToStr ''?????'' 907 = Some (buf', n) \<and> 1 \<le> unat n \<and> unat n \<le> 5 \<and>
      (1 :: u16) \<le> 907 \<and> buf' ! 0 \<in> set ''123456789'')"
proof -
  have 1: "5 \<le> length ''?????''"
    by simp
  have 2: "(1 :: u16) \<le> 907"
    by simp
  from uintToStr_digits_bounds [OF 1, of 907] 1 2 show ?thesis
    by blast
qed

text \<open>
  C10. \<open>uintToStr\<close> terminates: five passes through the body are enough for the
  digit loop on every 16-bit value and every buffer, \<open>charsWritten div 2\<close> passes are
  enough for the reversal loop, and with room for five characters the function returns
  a result. (Both loops are total functions of the embedding; their termination proofs
  use the measures \<open>dist\<close> and \<open>j - i\<close>.)
\<close>

theorem uintToStr_terminates:
  "digit_loop_fuel 5 buf 0 dist = Returned (digit_loop buf 0 dist) \<and>
   swap_loop_fuel (unat charsWritten div 2) buf' 0 (uint charsWritten - 1) =
     Returned (swap_loop buf' 0 (uint charsWritten - 1)) \<and>
   (5 \<le> length buf \<longrightarrow> (\<exists>r n. uintToStr buf dist = Some (r, n)))"
proof (intro conjI impI)
  have "unat dist < 2 ^ 16"
    using unsigned_less [of dist] by simp
  then have "unat dist < 10 ^ 5"
    by simp
  then show "digit_loop_fuel 5 buf 0 dist = Returned (digit_loop buf 0 dist)"
    by (intro digit_loop_fuel_enough) simp_all
  have "nat (uint charsWritten - 1 - 0 + 1) div 2 \<le> unat charsWritten div 2"
    by simp
  then show "swap_loop_fuel (unat charsWritten div 2) buf' 0 (uint charsWritten - 1) =
               Returned (swap_loop buf' 0 (uint charsWritten - 1))"
    by (rule swap_loop_fuel_enough)
  assume "5 \<le> length buf"
  from uintToStr_decimal [OF decimal_fits [OF this]]
  show "\<exists>r n. uintToStr buf dist = Some (r, n)"
    by blast
qed

theorem uintToStr_terminates_witness:
  "digit_loop_fuel 5 ''?????'' 0 65535 = Returned (digit_loop ''?????'' 0 65535) \<and>
   swap_loop_fuel (unat (5 :: u8) div 2) ''53556'' 0 (uint (5 :: u8) - 1) =
     Returned (swap_loop ''53556'' 0 (uint (5 :: u8) - 1)) \<and>
   5 \<le> length ''?????'' \<and> (\<exists>r n. uintToStr ''?????'' 65535 = Some (r, n))"
proof -
  have 1: "5 \<le> length ''?????''"
    by simp
  from uintToStr_terminates [of "''?????''" 65535 5 "''53556''"] 1 show ?thesis
    by blast
qed

subsection \<open>Readout formatting\<close>

declare copy_loop.simps [simp del]

lemma copy_loop_segment:
  "0 \<le> i \<Longrightarrow> i \<le> bound \<Longrightarrow> nat bound \<le> length src \<Longrightarrow> 0 \<le> j \<Longrightarrow>
   nat j + nat (bound - i) \<le> length dst \<Longrightarrow>
   copy_loop dst src bound i j =
     Some (take (nat j) dst @ take (nat (bound - i)) (drop (nat i) src)
             @ drop (nat j + nat (bound - i)) dst,
           j + (bound - i))"
proof (induction dst src bound i j rule: copy_loop.induct)
  case (1 dst src bound i j)
  note IH = 1(1) and i0 = 1(2) and ib = 1(3) and bs = 1(4) and j0 = 1(5) and fit = 1(6)
  show ?case
  proof (cases "i < bound")
    case False
    with ib have "i = bound" by simp
    then show ?thesis
      by (simp add: copy_loop.simps [of dst src bound bound j])
  next
    case True
    let ?m = "nat (bound - (i + 1))"
    have m: "nat (bound - i) = Suc ?m"
      using True by simp
    have inb: "0 \<le> i \<and> nat i < length src \<and> 0 \<le> j \<and> nat j < length dst"
      using True i0 bs j0 fit by (simp add: m)
    let ?dst = "dst[nat j := src ! nat i]"
    have ni: "nat (i + 1) = Suc (nat i)" and nj: "nat (j + 1) = Suc (nat j)"
      using i0 j0 by simp_all
    have step: "copy_loop dst src bound i j = copy_loop ?dst src bound (i + 1) (j + 1)"
      using True inb by (simp add: copy_loop.simps [of dst src bound i j])
    have ih: "copy_loop ?dst src bound (i + 1) (j + 1) =
                Some (take (nat (j + 1)) ?dst @ take ?m (drop (nat (i + 1)) src)
                        @ drop (nat (j + 1) + ?m) ?dst,
                      j + 1 + (bound - (i + 1)))"
      using IH [OF True inb] True i0 bs j0 fit by (simp add: m nj)
    have t: "take (Suc (nat j)) ?dst = take (nat j) dst @ [src ! nat i]"
      using inb by (simp add: take_Suc_conv_app_nth)
    have d: "drop (Suc (nat j) + ?m) ?dst = drop (Suc (nat j) + ?m) dst"
      by simp
    have s: "take (Suc ?m) (drop (nat i) src) = src ! nat i # take ?m (drop (Suc (nat i)) src)"
      using inb by (simp add: Cons_nth_drop_Suc [symmetric])
    show ?thesis
      unfolding step ih m ni nj t d s by simp
  qed
qed

lemma width_loop_prefix:
  "0 \<le> i \<Longrightarrow> unat sz \<le> length str \<Longrightarrow>
   width_loop tbl str sz i numCol = width_loop tbl (take (unat sz) str) sz i numCol"
proof (induction tbl str sz i numCol rule: width_loop.induct)
  case (1 tbl str sz i numCol)
  note IH = 1(1) and i0 = 1(2) and len = 1(3)
  let ?p = "take (unat sz) str"
  show ?case
  proof (cases "i < uint sz")
    case False
    then show ?thesis
      by (simp add: width_loop.simps [of tbl _ sz i])
  next
    case True
    then have lt: "nat i < unat sz"
      using i0 by (simp add: unat_eq_nat_uint del: nat_uint_eq)
    then have inb: "0 \<le> i \<and> nat i < length str" and inb': "0 \<le> i \<and> nat i < length ?p"
      using i0 len by simp_all
    have nth: "?p ! nat i = str ! nat i"
      using lt by simp
    show ?thesis
    proof (cases "glyph_at tbl (of_char (str ! nat i) - 32)")
      case None
      then show ?thesis
        using True inb inb' by (simp add: width_loop.simps [of tbl _ sz i] nth del: length_take)
    next
      case (Some c)
      from IH [OF True inb Some refl refl] i0 len
      have "width_loop tbl str sz (i + 1)
              (if column c 4 \<noteq> 0 then (if column c 0 \<noteq> 0 then numCol + 1 else numCol) + 1
               else if column c 0 \<noteq> 0 then numCol + 1 else numCol) =
            width_loop tbl ?p sz (i + 1)
              (if column c 4 \<noteq> 0 then (if column c 0 \<noteq> 0 then numCol + 1 else numCol) + 1
               else if column c 0 \<noteq> 0 then numCol + 1 else numCol)"
        by simp
      then show ?thesis
        using True inb inb' Some
        by (simp add: width_loop.simps [of tbl _ sz i] nth Let_def del: length_take)
    qed
  qed
qed

lemma print_loop_prefix:
  "0 \<le> i \<Longrightarrow> nat sz \<le> length str \<Longrightarrow>
   print_loop tbl str sz i s = print_loop tbl (take (nat sz) str) sz i s"
proof (induction tbl str sz i s rule: print_loop.induct)
  case (1 tbl str sz i s)
  note IH = 1(1) and i0 = 1(2) and len = 1(3)
  let ?p = "take (nat sz) str"
  show ?case
  proof (cases "i < sz")
    case False
    then show ?thesis
      by (simp add: print_loop.simps [of tbl _ sz i])
  next
    case True
    then have lt: "nat i < nat sz"
      using i0 by simp
    have lp: "length ?p = nat sz"
      using len by (simp add: min_def)
    have inb: "0 \<le> i \<and> nat i < length str"
      using lt i0 len by (intro conjI; linarith)
    have inb': "0 \<le> i \<and> nat i < length ?p"
      unfolding lp using lt i0 by (intro conjI; linarith)
    have nth: "?p ! nat i = str ! nat i"
      using lt by simp
    show ?thesis
    proof (cases "LCD_PrintCharacter tbl (str ! nat i) s")
      case None
      then show ?thesis
        using True inb inb' by (simp add: print_loop.simps [of tbl _ sz i] nth del: length_take)
    next
      case (Some s')
      from IH [OF True inb Some] i0 len
      have "print_loop tbl str sz (i + 1) s' = print_loop tbl ?p sz (i + 1) s'"
        by simp
      then show ?thesis
        using True inb inb' Some
        by (simp add: print_loop.simps [of tbl _ sz i] nth del: length_take)
    qed
  qed
qed

lemma PrintStringCentered_prefix:
  assumes "unat sz \<le> length str"
  shows "LCD_PrintStringCentered tbl str sz s =
           LCD_PrintStringCentered tbl (take (unat sz) str) sz s"
proof -
  have "nat (uint sz) \<le> length str"
    using assms by simp
  from print_loop_prefix [OF _ this, of 0 tbl]
  have "print_loop tbl str (uint sz) 0 t = print_loop tbl (take (unat sz) str) (uint sz) 0 t"
    for t by simp
  then show ?thesis
    using width_loop_prefix [OF _ assms, of 0 tbl "sz * 5"]
    by (simp add: LCD_PrintStringCentered_def LCD_PrintString_def)
qed
lemma copy_loop_append:
  assumes "m \<le> length src" and "m \<le> length R"
  shows "copy_loop (A @ R) src (int m) 0 (int (length A)) =
           Some (A @ take m src @ drop m R, int (length A) + int m)"
  using copy_loop_segment [of 0 "int m" src "int (length A)" "A @ R"] assms
  by simp

lemma length_local_array: "length (local_array junk n) = n"
  by (simp add: local_array_def)

lemma uintToStr_local:
  "uintToStr (local_array junk 32) v =
     Some (decimal (unat v) @ drop (length (decimal (unat v))) (local_array junk 32),
           of_nat (length (decimal (unat v))))"
  by (rule uintToStr_decimal [OF decimal_fits]) (simp add: length_local_array)

lemma length_decimal_u16: "length (decimal (unat (v :: u16))) \<le> 5"
  using digits_lsd_u16 [of v] by (simp add: length_decimal)

lemma uint_length_decimal:
  "uint (of_nat (length (decimal (unat (v :: u16)))) :: u8) = int (length (decimal (unat v)))"
  using unat_length_decimal [of v] by (simp only: uint_nat)

lemma PrintMeasurement_in_range:
  assumes le: "dist \<le> 4500" and ul: "unat units_sz \<le> length units"
    and cap: "unat units_sz \<le> 27"
  shows "LCD_PrintMeasurement tbl junk dist units units_sz s =
           LCD_PrintStringCentered tbl (decimal (unat dist) @ take (unat units_sz) units)
             (of_nat (length (decimal (unat dist)) + unat units_sz))
             (LCD_SetY 2 (LCD_ClearRow 2 0 s))"
proof -
  let ?la = "local_array junk 32"
  let ?d = "decimal (unat dist)"
  let ?n = "length ?d"
  let ?u = "unat units_sz"
  let ?R = "drop ?n ?la"
  let ?s2 = "LCD_SetY 2 (LCD_ClearRow 2 0 s)"
  have n5: "?n \<le> 5" by (rule length_decimal_u16)
  have gate: "\<not> 4500 < dist"
    using le by simp
  have lR: "length ?R = 32 - ?n"
    by (simp add: length_local_array)
  have uR: "?u \<le> length ?R"
    unfolding lR using n5 cap by arith
  have uu: "uint units_sz = int ?u"
    by (rule uint_nat)
  have cp: "copy_loop (?d @ ?R) units (uint units_sz) 0 (uint (of_nat ?n :: u8)) =
              Some (?d @ take ?u units @ drop ?u ?R, int ?n + int ?u)"
    unfolding uu uint_length_decimal by (rule copy_loop_append [OF ul uR])
  let ?sz = "word_of_int (uint (of_nat ?n :: u8) + uint units_sz) :: u8"
  have sz: "?sz = of_nat (?n + ?u)"
    unfolding uu uint_length_decimal by simp
  have lt: "?n + ?u < 256"
    using n5 cap by arith
  have usz: "unat (of_nat (?n + ?u) :: u8) = ?n + ?u"
    by (subst unat_of_nat) (simp add: lt)
  let ?str = "?d @ take ?u units @ drop ?u ?R"
  have tk: "take (?n + ?u) ?str = ?d @ take ?u units"
    using ul by simp
  have "?n + ?u \<le> length ?str"
    using ul by simp
  then have "LCD_PrintStringCentered tbl ?str (of_nat (?n + ?u)) ?s2 =
             LCD_PrintStringCentered tbl (?d @ take ?u units) (of_nat (?n + ?u)) ?s2"
    using PrintStringCentered_prefix [of "of_nat (?n + ?u)" ?str tbl ?s2]
    unfolding usz tk by simp
  then show ?thesis
    unfolding LCD_PrintMeasurement_def Let_def
    by (simp only: gate if_False uintToStr_local cp sz Option.bind.simps prod.case)
qed
lemma sent_SetY_2: "sent (LCD_SetY 2 t) = sent t @ [(CommandMode, 0x42)]"
  by (simp add: LCD_SetY_def sent_SendCommand)

lemma sent_SetX_0: "sent (LCD_SetX 0 t) = sent t @ [(CommandMode, 0x80)]"
  by (simp add: LCD_SetX_def sent_SendCommand)

lemma row_bound_full: "nat (84 - uint (0 :: u8) - 0) = 84"
  by simp

lemma sent_clear_whole_row:
  "sent (LCD_ClearRow 2 0 s) =
     sent s @ [(CommandMode, 0x42), (CommandMode, 0x80)] @ replicate 84 (DataMode, 0x00)"
  unfolding LCD_ClearRow_def sent_zero_loop row_bound_full sent_SetX_0 sent_SetY_2 by simp

lemma centered_bytes:
  assumes "list_all (tabulated tbl) str" and "length str \<le> 12"
  shows "map_option sent (LCD_PrintStringCentered tbl str (of_nat (length str)) s) =
           Some (sent s @ [(CommandMode, 0x80 OR of_nat ((84 - rendered_width tbl str) div 2))]
                        @ text_bytes tbl str)"
proof -
  let ?sz = "of_nat (length str) :: u8"
  have u: "unat ?sz = length str"
    using assms(2) by (subst unat_of_nat) simp
  have "5 * length str \<le> rendered_width tbl str \<and> rendered_width tbl str \<le> 7 * length str"
    by (induction str) (simp_all add: rendered_width_def char_width_def)
  with assms(2) have w: "rendered_width tbl str \<le> 84"
    by arith
  have "LCD_PrintStringCentered tbl str ?sz s =
          Some (emit ((CommandMode, 0x80 OR of_nat ((84 - rendered_width tbl (take (unat ?sz) str)) div 2))
                        # text_bytes tbl (take (unat ?sz) str)) s)"
    by (rule PrintStringCentered_emit) (use assms(1) w in \<open>simp_all add: u list_all_iff\<close>)
  then show ?thesis
    by (simp add: u sent_emit)
qed

lemma PrintMeasurement_out_of_range:
  assumes "4500 < dist"
  shows "LCD_PrintMeasurement tbl junk dist units units_sz s =
           LCD_PrintStringCentered tbl ''OUT OF RANGE'' 12 (LCD_SetY 2 (LCD_ClearRow 2 0 s))"
proof -
  let ?s2 = "LCD_SetY 2 (LCD_ClearRow 2 0 s)"
  from assms have "LCD_PrintMeasurement tbl junk dist units units_sz s =
               LCD_PrintStringCentered tbl (literal ''OUT OF RANGE'') 12 ?s2"
    by (simp add: LCD_PrintMeasurement_def Let_def)
  also have "\<dots> = LCD_PrintStringCentered tbl (take (unat (12 :: u8)) (literal ''OUT OF RANGE'')) 12 ?s2"
    by (rule PrintStringCentered_prefix) (simp add: literal_def)
  also have "take (unat (12 :: u8)) (literal ''OUT OF RANGE'') = ''OUT OF RANGE''"
    by (simp add: literal_def)
  finally show ?thesis .
qed

lemma PrintMeasurement_4500_mm:
  "LCD_PrintMeasurement tbl junk 4500 (''mm'' @ rest) 2 s =
     LCD_PrintStringCentered tbl ''4500mm'' 6 (LCD_SetY 2 (LCD_ClearRow 2 0 s))"
proof -
  have u: "unat (4500 :: u16) = 4500" and l: "length ''4500'' = 4"
    by simp_all
  have "LCD_PrintMeasurement tbl junk 4500 (''mm'' @ rest) 2 s =
          LCD_PrintStringCentered tbl (decimal (unat (4500 :: u16)) @ take (unat (2 :: u8)) (''mm'' @ rest))
            (of_nat (length (decimal (unat (4500 :: u16))) + unat (2 :: u8)))
            (LCD_SetY 2 (LCD_ClearRow 2 0 s))"
    by (rule PrintMeasurement_in_range) simp_all
  then show ?thesis
    unfolding u decimal_4500 l by simp
qed

lemma sent_row_2_cleared:
  "sent (LCD_SetY 2 (LCD_ClearRow 2 0 s)) =
     sent s @ [(CommandMode, 0x42), (CommandMode, 0x80)] @ replicate 84 (DataMode, 0x00)
            @ [(CommandMode, 0x42)]"
  unfolding sent_SetY_2 sent_clear_whole_row by simp

text \<open>
  C5. For every value above 4500, whatever the unit text, \<open>LCD_PrintMeasurement\<close>
  sends the row command for row 2, the column command for column 0, 84 zero data bytes
  and the row command again, and then the centred text \<open>OUT OF RANGE\<close>: the column
  command for \<open>(84 - w) div 2\<close>, \<open>w\<close> the rendered width of the text, followed by the
  bytes of its twelve characters. For the value 4500 and a unit text starting with
  \<open>mm\<close> (length 2) it sends the same clearing and addressing bytes and then the centred
  text \<open>4500mm\<close>. In both cases the characters of the text are taken to be tabulated.
\<close>

theorem print_measurement_range:
  "(4500 < dist \<and> list_all (tabulated tbl) ''OUT OF RANGE'' \<longrightarrow>
      map_option sent (LCD_PrintMeasurement tbl junk dist units units_sz s) =
        Some (sent s @ [(CommandMode, 0x42), (CommandMode, 0x80)]
                     @ replicate 84 (DataMode, 0x00) @ [(CommandMode, 0x42)]
                     @ [(CommandMode,
                         0x80 OR of_nat ((84 - rendered_width tbl ''OUT OF RANGE'') div 2))]
                     @ text_bytes tbl ''OUT OF RANGE'')) \<and>
   (list_all (tabulated tbl) ''4500mm'' \<longrightarrow>
      map_option sent (LCD_PrintMeasurement tbl junk 4500 (''mm'' @ rest) 2 s) =
        Some (sent s @ [(CommandMode, 0x42), (CommandMode, 0x80)]
                     @ replicate 84 (DataMode, 0x00) @ [(CommandMode, 0x42)]
                     @ [(CommandMode, 0x80 OR of_nat ((84 - rendered_width tbl ''4500mm'') div 2))]
                     @ text_bytes tbl ''4500mm''))"
proof (intro conjI impI)
  let ?s2 = "LCD_SetY 2 (LCD_ClearRow 2 0 s)"
  assume a: "4500 < dist \<and> list_all (tabulated tbl) ''OUT OF RANGE''"
  have l: "(12 :: u8) = of_nat (length ''OUT OF RANGE'')"
    by simp
  from a have t: "list_all (tabulated tbl) ''OUT OF RANGE''" and le: "length ''OUT OF RANGE'' \<le> 12"
    by simp_all
  show "map_option sent (LCD_PrintMeasurement tbl junk dist units units_sz s) =
        Some (sent s @ [(CommandMode, 0x42), (CommandMode, 0x80)]
                     @ replicate 84 (DataMode, 0x00) @ [(CommandMode, 0x42)]
                     @ [(CommandMode,
                         0x80 OR of_nat ((84 - rendered_width tbl ''OUT OF RANGE'') div 2))]
                     @ text_bytes tbl ''OUT OF RANGE'')"
    unfolding PrintMeasurement_out_of_range [OF a [THEN conjunct1]] l
      centered_bytes [OF t le] sent_row_2_cleared
    by (simp only: append_assoc)
next
  let ?s2 = "LCD_SetY 2 (LCD_ClearRow 2 0 s)"
  assume t: "list_all (tabulated tbl) ''4500mm''"
  have l: "(6 :: u8) = of_nat (length ''4500mm'')"
    by simp
  have le: "length ''4500mm'' \<le> 12"
    by simp
  show "map_option sent (LCD_PrintMeasurement tbl junk 4500 (''mm'' @ rest) 2 s) =
        Some (sent s @ [(CommandMode, 0x42), (CommandMode, 0x80)]
                     @ replicate 84 (DataMode, 0x00) @ [(CommandMode, 0x42)]
                     @ [(CommandMode, 0x80 OR of_nat ((84 - rendered_width tbl ''4500mm'') div 2))]
                     @ text_bytes tbl ''4500mm'')"
    unfolding PrintMeasurement_4500_mm l centered_bytes [OF t le] sent_row_2_cleared
    by (simp only: append_assoc)
qed

theorem print_measurement_range_witness:
  "(4500 :: u16) < 4501 \<and> list_all (tabulated wide_table) ''OUT OF RANGE'' \<and>
   map_option sent (LCD_PrintMeasurement wide_table (\<lambda>k. CHR ''?'') 4501 ''mm'' 2 idle_bus) =
     Some (sent idle_bus @ [(CommandMode, 0x42), (CommandMode, 0x80)]
             @ replicate 84 (DataMode, 0x00) @ [(CommandMode, 0x42)]
             @ [(CommandMode, 0x80)] @ text_bytes wide_table ''OUT OF RANGE'') \<and>
   list_all (tabulated wide_table) ''4500mm'' \<and>
   map_option sent (LCD_PrintMeasurement wide_table (\<lambda>k. CHR ''?'') 4500 ''mm'' 2 idle_bus) =
     Some (sent idle_bus @ [(CommandMode, 0x42), (CommandMode, 0x80)]
             @ replicate 84 (DataMode, 0x00) @ [(CommandMode, 0x42)]
             @ [(CommandMode, 0x95)] @ text_bytes wide_table ''4500mm'')"
proof -
  have 1: "(4500 :: u16) < 4501"
    by simp
  have 2: "list_all (tabulated wide_table) ''OUT OF RANGE''"
    by (simp add: tabulated_def wide_table_def)
  have 3: "list_all (tabulated wide_table) ''4500mm''"
    by (simp add: tabulated_def wide_table_def)
  have w1: "rendered_width wide_table ''OUT OF RANGE'' = 84"
    by (simp add: rendered_width_def char_width_def glyph_of_def column_def wide_table_def)
  have w2: "rendered_width wide_table ''4500mm'' = 42"
    by (simp add: rendered_width_def char_width_def glyph_of_def column_def wide_table_def)
  have c1: "(0x80 OR of_nat ((84 - 84) div 2) :: u8) = 0x80"
    by simp
  have c2: "(0x80 OR of_nat ((84 - 42) div 2) :: u8) = 0x95"
    by simp
  note r = print_measurement_range
             [of 4501 wide_table "\<lambda>k. CHR ''?''" "''mm''" 2 idle_bus "[]",
              unfolded append_Nil2 w1 w2 c1 c2]
  from r [THEN conjunct1, THEN mp, OF conjI [OF 1 2]] r [THEN conjunct2, THEN mp, OF 3] 1 2 3
  show ?thesis
    by blast
qed

lemma uint_ucast_u8: "uint (ucast (w :: u8) :: u16) = uint w"
  by (simp add: uint_up_ucast is_up)

lemma units_appended:
  assumes ul: "unat units_sz \<le> length units" and cap: "unat units_sz \<le> 26"
  shows "copy_loop (decimal (unat v) @ drop (length (decimal (unat v))) (local_array junk 32))
           units (uint units_sz) 0
           (uint (ucast (of_nat (length (decimal (unat (v :: u16)))) :: u8) :: u16)) =
         Some ((decimal (unat v) @ take (unat units_sz) units)
                 @ drop (unat units_sz) (drop (length (decimal (unat v))) (local_array junk 32)),
               int (length (decimal (unat v))) + int (unat units_sz))"
proof -
  let ?n = "length (decimal (unat v))"
  let ?R = "drop ?n (local_array junk 32)"
  have n5: "?n \<le> 5" by (rule length_decimal_u16)
  have lR: "length ?R = 32 - ?n"
    by (simp add: length_local_array)
  have uR: "unat units_sz \<le> length ?R"
    unfolding lR using n5 cap by arith
  show ?thesis
    unfolding uint_ucast_u8 uint_length_decimal uint_nat [of units_sz] append_assoc
    by (rule copy_loop_append [OF ul uR])
qed

lemma compose_first:
  assumes "length P \<le> 64"
  shows "copy_loop (replicate 64 z) (P @ Q) (int (length P)) 0 0 =
           Some (P @ replicate (64 - length P) z, int (length P))"
  using copy_loop_append [of "length P" "P @ Q" "replicate 64 z" "[]"] assms by simp

lemma compose_space:
  assumes "length P < 64"
  shows "(if 0 \<le> int (length P) \<and> nat (int (length P)) < length (P @ replicate (64 - length P) z)
          then Some ((P @ replicate (64 - length P) z)[nat (int (length P)) := c]) else None) =
         Some ((P @ [c]) @ replicate (63 - length P) z)"
proof -
  from assms have "64 - length P = Suc (63 - length P)"
    by arith
  then show ?thesis
    by (simp add: list_update_append)
qed

lemma compose_second:
  assumes "length P + 1 + length P' \<le> 64"
  shows "copy_loop ((P @ [c]) @ replicate (63 - length P) z) (P' @ Q') (int (length P')) 0
           (int (length P) + 1) =
         Some (((P @ [c]) @ P') @ replicate (63 - length P - length P') z,
               int (length ((P @ [c]) @ P')))"
proof -
  have a: "length P' \<le> length (P' @ Q')"
    by simp
  have b: "length P' \<le> length (replicate (63 - length P) z)"
    using assms by simp
  from copy_loop_append [OF a b, of "P @ [c]"] show ?thesis
    by (simp add: ac_simps)
qed

lemma centered_padded:
  assumes "length P \<le> 255"
  shows "LCD_PrintStringCentered tbl (P @ R) (word_of_int (int (length P))) s =
           LCD_PrintStringCentered tbl P (of_nat (length P)) s"
proof -
  have u: "unat (of_nat (length P) :: u8) = length P"
    using assms by (subst unat_of_nat) simp
  have "LCD_PrintStringCentered tbl (P @ R) (of_nat (length P)) s =
          LCD_PrintStringCentered tbl (take (unat (of_nat (length P) :: u8)) (P @ R))
            (of_nat (length P)) s"
    by (rule PrintStringCentered_prefix) (simp add: u)
  then show ?thesis
    by (simp add: u)
qed

lemma PrintTempMeasurement_composite:
  assumes le: "temp \<le> 158"
    and ul: "unat units_sz \<le> length units" and cap: "unat units_sz \<le> 26"
    and ul2: "unat units_sz2 \<le> length units2" and cap2: "unat units_sz2 \<le> 26"
  shows "LCD_PrintTempMeasurement tbl junk junk2 temp units units_sz temp2 units2 units_sz2 s =
           LCD_PrintStringCentered tbl
             (decimal (unat temp) @ take (unat units_sz) units @ '' ''
                @ decimal (unat temp2) @ take (unat units_sz2) units2)
             (of_nat (length (decimal (unat temp)) + unat units_sz + 1
                        + length (decimal (unat temp2)) + unat units_sz2))
             (LCD_SetY 4 (LCD_ClearRow 4 0 s))"
proof -
  let ?d1 = "decimal (unat temp)" and ?d2 = "decimal (unat temp2)"
  let ?n1 = "length ?d1" and ?n2 = "length ?d2"
  let ?u1 = "unat units_sz" and ?u2 = "unat units_sz2"
  let ?P1 = "?d1 @ take ?u1 units" and ?P2 = "?d2 @ take ?u2 units2"
  let ?s2 = "LCD_SetY 4 (LCD_ClearRow 4 0 s)"
  have n1: "?n1 \<le> 5" and n2: "?n2 \<le> 5"
    by (rule length_decimal_u16)+
  have lP1: "length ?P1 = ?n1 + ?u1" and lP2: "length ?P2 = ?n2 + ?u2"
    using ul ul2 by simp_all
  have m1: "length ?P1 \<le> 31" and m2: "length ?P2 \<le> 31"
    unfolding lP1 lP2 using n1 n2 cap cap2 by arith+
  have gate: "\<not> (uint temp > 158 \<or> uint temp < 0 \<or> uint temp > 158 \<or> uint temp < 0)"
    using le by (simp add: word_le_def)
  note a1 = units_appended [OF ul cap, of temp junk]
  note a2 = units_appended [OF ul2 cap2, of temp2 junk2]
  have b1: "uint (ucast (of_nat ?n1 :: u8) :: u16) + uint units_sz = int (length ?P1)"
    and b2: "uint (ucast (of_nat ?n2 :: u8) :: u16) + uint units_sz2 = int (length ?P2)"
    unfolding uint_ucast_u8 uint_length_decimal uint_nat [of units_sz] uint_nat [of units_sz2]
      lP1 lP2 by (simp_all only: of_nat_add)
  have c3: "length ?P1 \<le> 64" and wr: "length ?P1 < 64"
    and c4: "length ?P1 + 1 + length ?P2 \<le> 64" and c5: "length ((?P1 @ '' '') @ ?P2) \<le> 255"
    using m1 m2 by simp_all
  have "LCD_PrintTempMeasurement tbl junk junk2 temp units units_sz temp2 units2 units_sz2 s =
          LCD_PrintStringCentered tbl ((?P1 @ '' '') @ ?P2)
            (of_nat (length ((?P1 @ '' '') @ ?P2))) ?s2"
    unfolding LCD_PrintTempMeasurement_def Let_def
    by (simp only: gate if_False uintToStr_local a1 a2 b1 b2 compose_first [OF c3]
        compose_space [OF wr] compose_second [OF c4] centered_padded [OF c5]
        Option.bind.simps prod.case)
  moreover have "length ((?P1 @ '' '') @ ?P2) = ?n1 + ?u1 + 1 + ?n2 + ?u2"
    using lP1 lP2 by simp
  ultimately show ?thesis
    by (simp only: append_assoc)
qed

lemma rendered_width_bounds:
  "5 * length str \<le> rendered_width tbl str \<and> rendered_width tbl str \<le> 7 * length str"
  by (induction str) (simp_all add: rendered_width_def char_width_def)

lemma centered_length:
  assumes "list_all (tabulated tbl) str" and "length str \<le> 12"
  shows "\<exists>r. LCD_PrintStringCentered tbl str (of_nat (length str)) s = Some r \<and>
             length (sent r) = length (sent s) + 1 + rendered_width tbl str"
proof -
  let ?sz = "of_nat (length str) :: u8"
  have u: "unat ?sz = length str"
    using assms(2) by (subst unat_of_nat) simp
  have w: "rendered_width tbl str \<le> 84"
    using rendered_width_bounds [of str tbl] assms(2) by arith
  have "LCD_PrintStringCentered tbl str ?sz s =
          Some (emit ((CommandMode, 0x80 OR of_nat ((84 - rendered_width tbl (take (unat ?sz) str)) div 2))
                        # text_bytes tbl (take (unat ?sz) str)) s)"
    by (rule PrintStringCentered_emit) (use assms(1) w in \<open>simp_all add: u list_all_iff\<close>)
  then show ?thesis
    by (simp add: u sent_emit length_text_bytes)
qed

text \<open>
  C1. \<open>LCD_PrintTempMeasurement\<close> tests only its first value: at \<open>temp = 20\<close>, in
  range, and \<open>temp2 = 200\<close>, above 158, with units \<open>F\<close> and \<open>C\<close>, it passes the
  composite \<open>20F 200C\<close> to the centred printer; and when the characters of both texts
  are tabulated, what it does differs from printing \<open>OUT OF RANGE\<close>.
\<close>

theorem temp_gate_misses_second_value:
  "LCD_PrintTempMeasurement tbl junk junk2 20 (''F'' @ rest) 1 200 (''C'' @ rest2) 1 s =
     LCD_PrintStringCentered tbl ''20F 200C'' 8 (LCD_SetY 4 (LCD_ClearRow 4 0 s)) \<and>
   (list_all (tabulated tbl) ''20F 200C'' \<and> list_all (tabulated tbl) ''OUT OF RANGE'' \<longrightarrow>
      LCD_PrintTempMeasurement tbl junk junk2 20 (''F'' @ rest) 1 200 (''C'' @ rest2) 1 s \<noteq>
        LCD_PrintStringCentered tbl ''OUT OF RANGE'' 12 (LCD_SetY 4 (LCD_ClearRow 4 0 s)))"
proof -
  let ?s2 = "LCD_SetY 4 (LCD_ClearRow 4 0 s)"
  have d20: "decimal 20 = ''20''" and d200: "decimal 200 = ''200''"
    using digit_chars by (simp_all add: decimal_def digits_lsd.simps)
  have u: "unat (20 :: u16) = 20" "unat (200 :: u16) = 200" "unat (1 :: u8) = 1"
    by simp_all
  have "LCD_PrintTempMeasurement tbl junk junk2 20 (''F'' @ rest) 1 200 (''C'' @ rest2) 1 s =
          LCD_PrintStringCentered tbl
             (decimal (unat (20 :: u16)) @ take (unat (1 :: u8)) (''F'' @ rest) @ '' ''
                @ decimal (unat (200 :: u16)) @ take (unat (1 :: u8)) (''C'' @ rest2))
             (of_nat (length (decimal (unat (20 :: u16))) + unat (1 :: u8) + 1
                        + length (decimal (unat (200 :: u16))) + unat (1 :: u8)))
             ?s2"
    by (rule PrintTempMeasurement_composite) simp_all
  then have composite:
    "LCD_PrintTempMeasurement tbl junk junk2 20 (''F'' @ rest) 1 200 (''C'' @ rest2) 1 s =
       LCD_PrintStringCentered tbl ''20F 200C'' 8 ?s2"
    unfolding u d20 d200 by simp
  have differ: "LCD_PrintStringCentered tbl ''20F 200C'' 8 ?s2 \<noteq>
                LCD_PrintStringCentered tbl ''OUT OF RANGE'' 12 ?s2"
    if t1: "list_all (tabulated tbl) ''20F 200C''" and t2: "list_all (tabulated tbl) ''OUT OF RANGE''"
  proof -
    from centered_length [OF t1, of ?s2] obtain r1
      where r1: "LCD_PrintStringCentered tbl ''20F 200C'' 8 ?s2 = Some r1"
        and l1: "length (sent r1) = length (sent ?s2) + 1 + rendered_width tbl ''20F 200C''"
      by auto
    from centered_length [OF t2, of ?s2] obtain r2
      where r2: "LCD_PrintStringCentered tbl ''OUT OF RANGE'' 12 ?s2 = Some r2"
        and l2: "length (sent r2) = length (sent ?s2) + 1 + rendered_width tbl ''OUT OF RANGE''"
      by auto
    have "rendered_width tbl ''20F 200C'' \<le> 56"
      using rendered_width_bounds [of "''20F 200C''" tbl] by simp
    moreover have "60 \<le> rendered_width tbl ''OUT OF RANGE''"
      using rendered_width_bounds [of "''OUT OF RANGE''" tbl] by simp
    ultimately have "length (sent r1) \<noteq> length (sent r2)"
      unfolding l1 l2 by arith
    then have "r1 \<noteq> r2"
      by auto
    then show ?thesis
      by (simp add: r1 r2)
  qed
  from composite differ show ?thesis
    by simp
qed

theorem temp_gate_misses_second_value_witness:
  "list_all (tabulated wide_table) ''20F 200C'' \<and>
   list_all (tabulated wide_table) ''OUT OF RANGE'' \<and>
   LCD_PrintTempMeasurement wide_table (\<lambda>k. CHR ''?'') (\<lambda>k. CHR ''?'') 20 ''F'' 1 200 ''C'' 1 idle_bus \<noteq>
     LCD_PrintStringCentered wide_table ''OUT OF RANGE'' 12 (LCD_SetY 4 (LCD_ClearRow 4 0 idle_bus))"
proof -
  have 1: "list_all (tabulated wide_table) ''20F 200C''"
    by (simp add: tabulated_def wide_table_def)
  have 2: "list_all (tabulated wide_table) ''OUT OF RANGE''"
    by (simp add: tabulated_def wide_table_def)
  note r = temp_gate_misses_second_value
             [of wide_table "\<lambda>k. CHR ''?''" "\<lambda>k. CHR ''?''" "[]" "[]" idle_bus,
              unfolded append_Nil2]
  from r [THEN conjunct2, THEN mp, OF conjI [OF 1 2]] 1 2 show ?thesis
    by blast
qed

end
